theory Spec2Isabelle
  imports Complex_Main "HOL-Library.Multiset"
begin

section \<open>JavaScript values used by the chat control\<close>

text \<open>
  A JavaScript string is modelled as a \<^typ>\<open>string\<close>: each character stands for one
  UTF-16 code unit below 256, so \<open>length\<close> is the \<open>.length\<close> of the source. An optional
  field (\<open>text?: string\<close>) is an \<open>option\<close>. A string is truthy when it is not empty.
\<close>

definition truthy :: "string \<Rightarrow> bool" where
  "truthy s = (s \<noteq> [])"

definition or_else :: "string option \<Rightarrow> string \<Rightarrow> string" where
  \<comment> \<open>\<open>x || d\<close> for an optional string \<open>x\<close>\<close>
  "or_else x d = (case x of None \<Rightarrow> d | Some s \<Rightarrow> if truthy s then s else d)"

fun join :: "string \<Rightarrow> string list \<Rightarrow> string" where
  \<comment> \<open>\<open>Array.prototype.join\<close>\<close>
  "join sep [] = []"
| "join sep [x] = x"
| "join sep (x # y # ys) = x @ sep @ join sep (y # ys)"

section \<open>Direct Line activities and chat messages\<close>

text \<open>The \<open>Activity\<close> interface of \<open>CopilotChatService.ts\<close>.\<close>

record button =
  btn_value :: string

record body_item =
  item_text :: "string option"

record card_content =
  buttons :: "button list option"
  body :: "body_item list option"
  speak :: "string option"

record attachment =
  contentType :: string
  content :: "card_content option"

record activity =
  act_id :: "string option"
  act_type :: string
  from_id :: string
  act_text :: "string option"
  act_timestamp :: "string option"
  attachments :: "attachment list option"
  silentGreeting :: "bool option"
    \<comment> \<open>\<open>channelData?.silentGreeting\<close>; \<open>None\<close> when either is absent\<close>

text \<open>
  The \<open>Message\<close> interface of \<open>ChatWindow.tsx\<close>. A \<open>Date\<close> is represented by the string it
  was built from; \<open>isSignInCard\<close> absent counts as \<open>False\<close>.
\<close>

record message =
  msg_id :: string
  msg_text :: string
  isUser :: bool
  timestamp :: string
  signInUrl :: "string option"
  isSignInCard :: bool
  adaptiveCard :: "card_content option"
  speakText :: "string option"

definition oauth_type :: string where
  "oauth_type = ''application/vnd.microsoft.card.oauth''"

definition signin_type :: string where
  "signin_type = ''application/vnd.microsoft.card.signin''"

definition adaptive_type :: string where
  "adaptive_type = ''application/vnd.microsoft.card.adaptive''"

definition body_texts :: "card_content \<Rightarrow> string list" where
  \<comment> \<open>\<open>adaptiveCard.body.map(item => item.text || '').filter(text => text)\<close>, the empty
      list when there is no body\<close>
  "body_texts c =
     (case body c of
        None \<Rightarrow> []
      | Some items \<Rightarrow> filter truthy (map (\<lambda>item. or_else (item_text item) []) items))"

definition has_body :: "card_content \<Rightarrow> bool" where
  \<comment> \<open>\<open>adaptiveCard.body && adaptiveCard.body.length > 0\<close>\<close>
  "has_body c = (case body c of None \<Rightarrow> False | Some items \<Rightarrow> items \<noteq> [])"

definition card_speakText :: "card_content \<Rightarrow> string" where
  "card_speakText c =
     (if truthy (or_else (speak c) []) then or_else (speak c) []
      else if has_body c then join ''. '' (body_texts c)
      else [])"

definition card_messageText :: "string \<Rightarrow> card_content \<Rightarrow> string" where
  "card_messageText messageText c =
     (if \<not> truthy messageText \<and> has_body c then join '' '' (body_texts c) else messageText)"

definition first_button_value :: "card_content option \<Rightarrow> string option" where
  \<comment> \<open>\<open>attachment.content?.buttons\<close> present and not empty: \<open>buttons[0].value\<close>\<close>
  "first_button_value c =
     (case c of
        None \<Rightarrow> None
      | Some cc \<Rightarrow> (case buttons cc of
                     None \<Rightarrow> None
                   | Some [] \<Rightarrow> None
                   | Some (b # _) \<Rightarrow> Some (btn_value b)))"

definition mapActivity :: "string \<Rightarrow> string \<Rightarrow> activity \<Rightarrow> message" where
  \<comment> \<open>the \<open>.map\<close> callback of \<open>pollMessages\<close>; \<open>rnd\<close> is what \<open>Math.random().toString()\<close>
      returns for this activity and \<open>now\<close> what \<open>new Date()\<close> returns\<close>
  "mapActivity rnd now a =
     (let messageText = or_else (act_text a) [];
          ident = or_else (act_id a) rnd;
          stamp = or_else (act_timestamp a) now
      in case attachments a of
           Some (att # _) \<Rightarrow>
             if contentType att = oauth_type \<or> contentType att = signin_type then
               \<lparr>msg_id = ident, msg_text = ''Authentication required'', isUser = False,
                timestamp = stamp, signInUrl = first_button_value (content att),
                isSignInCard = True, adaptiveCard = None,
                speakText = Some ''Authentication required''\<rparr>
             else if contentType att = adaptive_type \<and> content att \<noteq> None then
               (let c = the (content att);
                    speakTxt = card_speakText c;
                    txt = card_messageText messageText c
                in \<lparr>msg_id = ident, msg_text = txt, isUser = False, timestamp = stamp,
                    signInUrl = None, isSignInCard = False, adaptiveCard = Some c,
                    speakText = Some (if truthy speakTxt then speakTxt else txt)\<rparr>)
             else
               \<lparr>msg_id = ident, msg_text = messageText, isUser = False, timestamp = stamp,
                signInUrl = None, isSignInCard = False, adaptiveCard = None,
                speakText = Some messageText\<rparr>
         | _ \<Rightarrow>
             \<lparr>msg_id = ident, msg_text = messageText, isUser = False, timestamp = stamp,
              signInUrl = None, isSignInCard = False, adaptiveCard = None,
              speakText = Some messageText\<rparr>)"

definition hasContent :: "message \<Rightarrow> bool" where
  \<comment> \<open>\<open>msg.text || msg.isSignInCard || msg.adaptiveCard\<close>\<close>
  "hasContent m = (truthy (msg_text m) \<or> isSignInCard m \<or> adaptiveCard m \<noteq> None)"

section \<open>Persisted conversation cursor (\<open>utils/storage.ts\<close>)\<close>

record conversation_state =
  cs_conversationId :: string
  cs_watermark :: "string option"
  savedAt :: int

text \<open>
  The \<open>copilot_chat_conversation\<close> item of localStorage: absent, present but not parsable
  as JSON, or a saved state.
\<close>

datatype stored = Absent | Unparsable | Saved conversation_state

definition CONVERSATION_EXPIRY_MS :: int where
  "CONVERSATION_EXPIRY_MS = 30 * 60 * 1000"

definition saveConversationState :: "int \<Rightarrow> string \<Rightarrow> string option \<Rightarrow> stored" where
  \<comment> \<open>the first argument is \<open>Date.now()\<close>\<close>
  "saveConversationState nowMs cid wm =
     Saved \<lparr>cs_conversationId = cid, cs_watermark = wm, savedAt = nowMs\<rparr>"

definition clearConversationState :: "stored \<Rightarrow> stored" where
  "clearConversationState st = Absent"

definition loadConversationState :: "int \<Rightarrow> stored \<Rightarrow> conversation_state option \<times> stored" where
  "loadConversationState nowMs st =
     (case st of
        Absent \<Rightarrow> (None, st)
      | Unparsable \<Rightarrow> (None, st)
      | Saved state \<Rightarrow>
          if nowMs - savedAt state < CONVERSATION_EXPIRY_MS then (Some state, st)
          else (None, clearConversationState st))"

section \<open>The Direct Line client (\<open>services/CopilotChatService.ts\<close>)\<close>

text \<open>
  What \<open>fetch\<close> gives back: it throws (with a message), or it returns a response with a
  status, a status text and a body. \<open>response.ok\<close> holds for the statuses 200 to 299.
\<close>

datatype 'a fetch_result = FetchThrows string | Response nat string 'a

definition ok :: "nat \<Rightarrow> bool" where
  "ok status = (200 \<le> status \<and> status \<le> 299)"

record service =
  baseUrl :: string
  conversationId :: "string option"
  watermark :: "string option"
  onStateChange :: bool
    \<comment> \<open>whether the persistence callback has been registered\<close>

definition new_service :: "string option \<Rightarrow> service" where
  \<comment> \<open>the constructor: \<open>endpoint || default\<close>\<close>
  "new_service endpoint =
     \<lparr>baseUrl = or_else endpoint ''https://directline.botframework.com/v3/directline'',
      conversationId = None, watermark = None, onStateChange = False\<rparr>"

definition activities_url :: "string \<Rightarrow> string \<Rightarrow> string option \<Rightarrow> string" where
  \<comment> \<open>\<open>watermark ? `...activities?watermark=${watermark}` : `...activities`\<close>\<close>
  "activities_url base cid wm =
     (if truthy (or_else wm [])
      then base @ ''/conversations/'' @ cid @ ''/activities?watermark='' @ or_else wm []
      else base @ ''/conversations/'' @ cid @ ''/activities'')"

definition reconnectConversation ::
  "unit fetch_result \<Rightarrow> string \<Rightarrow> string option \<Rightarrow> service \<Rightarrow> bool \<times> service" where
  "reconnectConversation probe cid wm svc =
     (case probe of
        FetchThrows e \<Rightarrow> (False, svc)
      | Response status statusText _ \<Rightarrow>
          if ok status then (True, svc\<lparr>conversationId := Some cid, watermark := wm\<rparr>)
          else if status = 403 \<or> status = 404 then (False, svc)
          else (False, svc))"

definition startConversation ::
  "int \<Rightarrow> string fetch_result \<Rightarrow> service \<times> stored \<Rightarrow> (string + string) \<times> service \<times> stored" where
  \<comment> \<open>\<open>Inl\<close> is the message of the error thrown, \<open>Inr\<close> the new conversation id\<close>
  "startConversation nowMs resp ss =
     (case ss of (svc, st) \<Rightarrow>
        (case resp of
           FetchThrows e \<Rightarrow> (Inl e, svc, st)
         | Response status statusText cid \<Rightarrow>
             if \<not> ok status then (Inl (''Failed to start conversation: '' @ statusText), svc, st)
             else (Inr cid, svc\<lparr>conversationId := Some cid\<rparr>,
                   if onStateChange svc then saveConversationState nowMs cid (watermark svc)
                   else st)))"

definition is_bot_message :: "activity \<Rightarrow> bool" where
  \<comment> \<open>the filter at the end of \<open>getMessages\<close>\<close>
  "is_bot_message a =
     (from_id a \<noteq> ''user'' \<and> act_type a = ''message'' \<and> silentGreeting a \<noteq> Some True)"

definition started :: "service \<Rightarrow> bool" where
  \<comment> \<open>\<open>this.conversationId\<close> is truthy: neither \<open>null\<close> nor the empty string\<close>
  "started svc = truthy (or_else (conversationId svc) [])"

definition getMessages_url :: "service \<Rightarrow> string option" where
  \<comment> \<open>\<open>getMessages\<close> down to its \<open>await fetch(url, ...)\<close>: the URL it fetches, none when it
      throws \<open>Conversation not started\<close> before fetching\<close>
  "getMessages_url svc =
     (if \<not> started svc then None
      else Some (activities_url (baseUrl svc) (or_else (conversationId svc) []) (watermark svc)))"

definition getMessages_settled ::
  "int \<Rightarrow> (activity list \<times> string) fetch_result \<Rightarrow> service \<times> stored
     \<Rightarrow> (string + activity list) \<times> service \<times> stored" where
  \<comment> \<open>\<open>getMessages\<close> from the moment its \<open>fetch\<close> settles\<close>
  "getMessages_settled nowMs resp ss =
     (case ss of (svc, st) \<Rightarrow>
        (case resp of
           FetchThrows e \<Rightarrow> (Inl e, svc, st)
         | Response status statusText data \<Rightarrow>
             if \<not> ok status then (Inl (''Failed to get messages: '' @ statusText), svc, st)
             else (Inr (filter is_bot_message (fst data)),
                   svc\<lparr>watermark := Some (snd data)\<rparr>,
                   if onStateChange svc \<and> started svc
                   then saveConversationState nowMs (or_else (conversationId svc) [])
                          (Some (snd data))
                   else st)))"

definition getMessages ::
  "int \<Rightarrow> (activity list \<times> string) fetch_result \<Rightarrow> service \<times> stored
     \<Rightarrow> (string + activity list) \<times> service \<times> stored" where
  \<comment> \<open>a call of \<open>getMessages\<close> during which nothing else touches the service\<close>
  "getMessages nowMs resp ss =
     (if \<not> started (fst ss) then (Inl ''Conversation not started'', ss)
      else getMessages_settled nowMs resp ss)"

section \<open>Initialisation of the control (\<open>initializeChat\<close>)\<close>

datatype request = GET string | POST string

record init_input =
  secret :: "string option"
  endpoint :: "string option"
  probe_result :: "unit fetch_result"
  start_result :: "string fetch_result"
  init_now :: int

record control_state =
  chatService :: "service option"
  init_error :: "string option"
  isInitializing :: bool
  isReconnected :: bool

definition reconnect_step ::
  "init_input \<Rightarrow> service \<times> stored \<Rightarrow> bool \<times> service \<times> stored \<times> request list" where
  \<comment> \<open>from \<open>loadConversationState()\<close> to the end of \<open>if (savedState) { ... }\<close>\<close>
  "reconnect_step inp ss =
     (case ss of (svc, st) \<Rightarrow>
        (case loadConversationState (init_now inp) st of
           (None, st1) \<Rightarrow> (False, svc, st1, [])
         | (Some savedState, st1) \<Rightarrow>
             (case reconnectConversation (probe_result inp) (cs_conversationId savedState)
                     (cs_watermark savedState) svc of
                (reconnected, svc1) \<Rightarrow>
                  (reconnected, svc1,
                   if \<not> reconnected then clearConversationState st1 else st1,
                   [GET (activities_url (baseUrl svc) (cs_conversationId savedState)
                          (cs_watermark savedState))]))))"

definition initializeChat :: "init_input \<Rightarrow> stored \<Rightarrow> control_state \<times> stored \<times> request list" where
  "initializeChat inp st =
     (if \<not> truthy (or_else (secret inp) []) then
        (\<lparr>chatService = None, init_error = Some ''Direct Line secret is required'',
          isInitializing = False, isReconnected = False\<rparr>, st, [])
      else
        (let svc = (new_service (endpoint inp))\<lparr>onStateChange := True\<rparr> in
         case reconnect_step inp (svc, st) of
           (reconnected, svc1, st1, reqs) \<Rightarrow>
             if \<not> reconnected then
               (case startConversation (init_now inp) (start_result inp) (svc1, st1) of
                  (Inl err, svc2, st2) \<Rightarrow>
                    (\<lparr>chatService = None, init_error = Some err,
                      isInitializing = False, isReconnected = False\<rparr>, st2,
                     reqs @ [POST (baseUrl svc1 @ ''/conversations'')])
                | (Inr cid, svc2, st2) \<Rightarrow>
                    (\<lparr>chatService = Some svc2, init_error = None,
                      isInitializing = False, isReconnected = False\<rparr>, st2,
                     reqs @ [POST (baseUrl svc1 @ ''/conversations'')]))
             else
               (\<lparr>chatService = Some svc1, init_error = None,
                 isInitializing = False, isReconnected = True\<rparr>, st1, reqs)))"

definition service_sendMessage :: "unit fetch_result \<Rightarrow> service \<Rightarrow> string + unit" where
  \<comment> \<open>\<open>CopilotChatService.sendMessage\<close>: \<open>Inl\<close> is the message of the error thrown\<close>
  "service_sendMessage resp svc =
     (if \<not> started svc then Inl ''Conversation not started''
      else
        (case resp of
           FetchThrows e \<Rightarrow> Inl e
         | Response status statusText _ \<Rightarrow>
             if \<not> ok status then Inl (''Failed to send message: '' @ statusText)
             else Inr ()))"

section \<open>State of the chat window (\<open>ChatWindow.tsx\<close>)\<close>

text \<open>
  The React state and refs of \<open>ChatWindow\<close> that the poll loop, the speech walk and the
  recognition handlers read or write, the chat service and the stored cursor, and three
  logs of what the component does to the outside: the calls of \<open>speak\<close> made by the walks
  (each one kept as the message whose \<open>speakText\<close> it was given), the texts
  posted to the bot, and the messages written with \<open>console.error\<close>. A pending
  \<open>setTimeout\<close> is kept as the data it will act on: \<open>autoSendTimer\<close> holds the transcript
  and the time at which the debounce runs out, \<open>pendingMicRestarts\<close> counts the scheduled
  calls of \<open>handleDrivingModeStart\<close>, \<open>pendingCancelResets\<close> the scheduled resets of
  \<open>cancelSpeechRef\<close>.
\<close>

record chat_state =
  messages :: "message list"
  seenMessageIds :: "string set"
  spokenMessageIds :: "string set"
  isSpeakingRef :: bool
  cancelSpeechRef :: bool
  hasGreeted :: bool
  hasRecognition :: bool
  autoSendTimer :: "(string \<times> int) option"
  isMuted :: bool
  drivingMode :: bool
  isPlaying :: bool
  isPaused :: bool
  isListening :: bool
  isTyping :: bool
  isSending :: bool
  inputText :: string
  transcribedText :: string
  lastUserInput :: string
  lastBotResponse :: string
  chat_service :: service
  conversation_store :: stored
  speakCalls :: "message list"
  posted :: "string list"
  consoleErrors :: "string list"
  pendingMicRestarts :: nat
  pendingCancelResets :: nat

subsection \<open>The poll loop\<close>

record poll_input =
  poll_response :: "(activity list \<times> string) fetch_result"
  poll_now :: string
  poll_nowMs :: int
  poll_rnd :: "nat \<Rightarrow> string"
    \<comment> \<open>the successive results of \<open>Math.random().toString()\<close> in this cycle\<close>

fun filterSeen :: "string set \<Rightarrow> activity list \<Rightarrow> activity list \<times> string set" where
  \<comment> \<open>the first \<open>.filter\<close> of \<open>pollMessages\<close>, which adds to \<open>seenMessageIds\<close> as it goes\<close>
  "filterSeen seen [] = ([], seen)"
| "filterSeen seen (a # as) =
     (let messageId = or_else (act_id a) [] in
      if messageId \<in> seen then filterSeen seen as
      else (case filterSeen (insert messageId seen) as of
              (kept, seen') \<Rightarrow> (a # kept, seen')))"

fun mapActivities :: "(nat \<Rightarrow> string) \<Rightarrow> nat \<Rightarrow> string \<Rightarrow> activity list \<Rightarrow> message list" where
  \<comment> \<open>the \<open>.map\<close>: \<open>Math.random()\<close> is called only for an activity without an id\<close>
  "mapActivities rnd k now [] = []"
| "mapActivities rnd k now (a # as) =
     mapActivity (rnd k) now a
       # mapActivities rnd (if truthy (or_else (act_id a) []) then k else Suc k) now as"

definition newMessagesFrom ::
  "poll_input \<Rightarrow> chat_state \<Rightarrow> (string + activity list) \<times> service \<times> stored
     \<Rightarrow> (string + message list) \<times> chat_state" where
  \<comment> \<open>from what \<open>getMessages\<close> gives to the value of \<open>newMessages\<close>; \<open>Inl\<close> when it throws\<close>
  "newMessagesFrom p s r =
     (case r of
        (Inl err, svc, st) \<Rightarrow> (Inl err, s)
      | (Inr activities, svc, st) \<Rightarrow>
          (case filterSeen (seenMessageIds s) activities of
             (kept, seen') \<Rightarrow>
               (Inr (filter hasContent (mapActivities (poll_rnd p) 0 (poll_now p) kept)),
                s\<lparr>chat_service := svc, conversation_store := st, seenMessageIds := seen'\<rparr>)))"

definition settledNewMessages ::
  "poll_input \<Rightarrow> chat_state \<Rightarrow> (string + message list) \<times> chat_state" where
  \<comment> \<open>\<open>pollMessages\<close> from the moment the \<open>fetch\<close> of its \<open>getMessages\<close> settles down to
      the value of \<open>newMessages\<close>\<close>
  "settledNewMessages p s =
     newMessagesFrom p s
       (getMessages_settled (poll_nowMs p) (poll_response p)
          (chat_service s, conversation_store s))"

definition fetchNewMessages ::
  "poll_input \<Rightarrow> chat_state \<Rightarrow> (string + message list) \<times> chat_state" where
  \<comment> \<open>\<open>pollMessages\<close> down to the value of \<open>newMessages\<close>, when nothing else runs while
      it awaits \<open>getMessages\<close>\<close>
  "fetchNewMessages p s =
     newMessagesFrom p s
       (getMessages (poll_nowMs p) (poll_response p) (chat_service s, conversation_store s))"

fun markUnspoken :: "string set \<Rightarrow> message list \<Rightarrow> message list \<times> string set" where
  \<comment> \<open>the \<open>for\<close> loop that fills \<open>unspokenMessages\<close> and \<open>spokenMessageIds\<close>\<close>
  "markUnspoken ids [] = ([], ids)"
| "markUnspoken ids (msg # msgs) =
     (if truthy (or_else (speakText msg) []) \<and> msg_id msg \<notin> ids then
        (case markUnspoken (insert (msg_id msg) ids) msgs of
           (unspoken, ids') \<Rightarrow> (msg # unspoken, ids'))
      else markUnspoken ids msgs)"

subsection \<open>The speech walk\<close>

text \<open>
  The \<open>async\<close> block that speaks the unspoken messages runs until its first \<open>await\<close> inside
  the poll that starts it, and is resumed each time the awaited \<open>speak\<close> call settles. A
  suspended walk is the value of \<open>drivingMode\<close> that its closure captured and the messages
  still to be spoken after the one that is being awaited.
\<close>

datatype speak_outcome = Resolved | Rejected string

record walk_task =
  walk_drivingMode :: bool
  remaining :: "message list"

definition walk_finally :: "bool \<Rightarrow> chat_state \<Rightarrow> chat_state" where
  \<comment> \<open>the \<open>finally\<close> block\<close>
  "walk_finally dm s =
     s\<lparr>isPlaying := False, isSpeakingRef := False,
       pendingMicRestarts :=
         (if dm \<and> \<not> cancelSpeechRef s then Suc (pendingMicRestarts s)
          else pendingMicRestarts s)\<rparr>"

fun walk_loop :: "bool \<Rightarrow> message list \<Rightarrow> chat_state \<Rightarrow> walk_task option \<times> chat_state" where
  \<comment> \<open>the \<open>for\<close> loop from the head of an iteration to the next \<open>await\<close>, or to the end of
      the \<open>finally\<close> block; \<open>None\<close> when the walk has exited\<close>
  "walk_loop dm [] s = (None, walk_finally dm s)"
| "walk_loop dm (msg # msgs) s =
     (if cancelSpeechRef s then (None, walk_finally dm s)
      else (Some \<lparr>walk_drivingMode = dm, remaining = msgs\<rparr>,
            s\<lparr>lastBotResponse := or_else (speakText msg) [],
              speakCalls := speakCalls s @ [msg]\<rparr>))"

definition walk_start :: "bool \<Rightarrow> message list \<Rightarrow> chat_state \<Rightarrow> walk_task option \<times> chat_state" where
  \<comment> \<open>entering the \<open>try\<close> block\<close>
  "walk_start dm unspokenMessages s =
     walk_loop dm unspokenMessages
       ((if dm \<and> hasRecognition s then s\<lparr>isListening := False, autoSendTimer := None\<rparr> else s)
          \<lparr>isPlaying := True\<rparr>)"

definition walk_resume :: "speak_outcome \<Rightarrow> walk_task \<Rightarrow> chat_state \<Rightarrow> walk_task option \<times> chat_state" where
  \<comment> \<open>the awaited \<open>speak\<close> call settles: a rejection is caught and logged, then the loop goes on\<close>
  "walk_resume outcome t s =
     walk_loop (walk_drivingMode t) (remaining t)
       (case outcome of
          Resolved \<Rightarrow> s
        | Rejected e \<Rightarrow> s\<lparr>consoleErrors := consoleErrors s @ [e]\<rparr>)"

definition speakNewMessages ::
  "bool \<Rightarrow> message list \<Rightarrow> chat_state \<Rightarrow> chat_state \<times> walk_task option" where
  \<comment> \<open>the body of \<open>if (shouldSpeak)\<close>; the first argument is the \<open>drivingMode\<close> of the
      closure\<close>
  "speakNewMessages dm newMessages s =
     (case markUnspoken (spokenMessageIds s) newMessages of
        (unspokenMessages, ids') \<Rightarrow>
          (let s1 = s\<lparr>spokenMessageIds := ids'\<rparr> in
           if unspokenMessages = [] then (s1, None)
           else if isSpeakingRef s1 then (s1, None)
           else (case walk_start dm unspokenMessages (s1\<lparr>isSpeakingRef := True\<rparr>) of
                   (t, s2) \<Rightarrow> (s2, t))))"

text \<open>
  \<open>pollMessages\<close> is the callback of a \<open>setInterval\<close>, and it is \<open>async\<close>: a tick runs it down
  to \<open>await chatService.getMessages()\<close>, which fetches with the watermark the service holds
  at that moment, and the rest runs when the fetch settles. Nothing makes a tick wait for
  the call of the tick before, so calls may overlap and their fetches may settle in any
  order. The callback reads \<open>isMuted\<close> and \<open>drivingMode\<close> from its closure; the interval is
  set up again whenever one of them changes, so a tick sees their values at the tick, and
  the rest of the call keeps those. A call in flight is the URL it fetches and the two
  flags of its closure.
\<close>

record poll_call =
  call_url :: string
  call_isMuted :: bool
  call_drivingMode :: bool

definition poll_start :: "chat_state \<Rightarrow> poll_call option \<times> chat_state" where
  \<comment> \<open>a tick: \<open>pollMessages\<close> down to the \<open>fetch\<close> of \<open>getMessages\<close>; no call is in flight
      when \<open>getMessages\<close> throws before fetching, which the \<open>catch\<close> logs\<close>
  "poll_start s =
     (case getMessages_url (chat_service s) of
        None \<Rightarrow> (None, s\<lparr>consoleErrors := consoleErrors s @ [''Conversation not started'']\<rparr>)
      | Some url \<Rightarrow>
          (Some \<lparr>call_url = url, call_isMuted = isMuted s, call_drivingMode = drivingMode s\<rparr>,
           s))"

definition handleNewMessages ::
  "bool \<Rightarrow> bool \<Rightarrow> (string + message list) \<times> chat_state
     \<Rightarrow> chat_state \<times> walk_task option" where
  \<comment> \<open>\<open>pollMessages\<close> from the value of \<open>newMessages\<close> on, and its \<open>catch\<close>; the first two
      arguments are the \<open>isMuted\<close> and the \<open>drivingMode\<close> of the closure, the second
      component of the result is the walk left suspended\<close>
  "handleNewMessages muted dm r =
     (case r of
        (Inl err, s1) \<Rightarrow> (s1\<lparr>consoleErrors := consoleErrors s1 @ [err]\<rparr>, None)
      | (Inr newMessages, s1) \<Rightarrow>
          if newMessages = [] then (s1, None)
          else
            (let lastSpeak = or_else (speakText (last newMessages)) [];
                 s2 = s1\<lparr>isTyping := False, messages := messages s1 @ newMessages,
                        lastBotResponse :=
                          (if truthy lastSpeak then lastSpeak else lastBotResponse s1)\<rparr>
             in if \<not> muted \<or> dm then speakNewMessages dm newMessages s2
                else (s2, None)))"

definition poll_settled :: "poll_call \<Rightarrow> poll_input \<Rightarrow> chat_state \<Rightarrow> chat_state \<times> walk_task option" where
  \<comment> \<open>the fetch of a call in flight settles: the rest of \<open>pollMessages\<close>\<close>
  "poll_settled c p s =
     handleNewMessages (call_isMuted c) (call_drivingMode c) (settledNewMessages p s)"

definition pollMessages :: "poll_input \<Rightarrow> chat_state \<Rightarrow> chat_state \<times> walk_task option" where
  \<comment> \<open>one run of \<open>pollMessages\<close> during which nothing else runs: a tick whose fetch settles
      at once\<close>
  "pollMessages p s = handleNewMessages (isMuted s) (drivingMode s) (fetchNewMessages p s)"

subsection \<open>Speech recognition and the auto-send debounce\<close>

definition isWhiteSpace :: "char \<Rightarrow> bool" where
  \<comment> \<open>the code units below 256 that \<open>String.prototype.trim\<close> strips\<close>
  "isWhiteSpace c = ((of_char c :: nat) \<in> {9, 10, 11, 12, 13, 32, 160})"

definition trim :: "string \<Rightarrow> string" where
  "trim s = rev (dropWhile isWhiteSpace (rev (dropWhile isWhiteSpace s)))"

definition lower_char :: "char \<Rightarrow> char" where
  \<comment> \<open>\<open>toLowerCase\<close> on one code unit below 256\<close>
  "lower_char c =
     (let n = (of_char c :: nat) in
      if (65 \<le> n \<and> n \<le> 90) \<or> (192 \<le> n \<and> n \<le> 214) \<or> (216 \<le> n \<and> n \<le> 222)
      then char_of (n + 32) else c)"

definition toLowerCase :: "string \<Rightarrow> string" where
  "toLowerCase s = map lower_char s"

definition noiseWords :: "string list" where
  "noiseWords = [''no'', ''oh'', ''uh'', ''um'', ''ah'', ''huh'', ''hmm'', ''yeah'', ''the'', ''a'', ''i'']"

record recognition_result =
  transcript :: string
  isFinal :: bool
  confidence :: "real option"

definition trimmedTranscript :: "recognition_result \<Rightarrow> string" where
  "trimmedTranscript r = toLowerCase (trim (transcript r))"

definition isLikelyNoise :: "recognition_result \<Rightarrow> bool" where
  "isLikelyNoise r =
     (trimmedTranscript r \<in> set noiseWords
      \<or> length (trimmedTranscript r) < 3
      \<or> (case confidence r of None \<Rightarrow> False | Some c \<Rightarrow> c < 0.5))"

definition onresult :: "int \<Rightarrow> recognition_result \<Rightarrow> chat_state \<Rightarrow> chat_state" where
  \<comment> \<open>the first argument is the time at which the handler runs\<close>
  "onresult nowMs r s =
     (if drivingMode s then
        (if \<not> isFinal r then
           (if \<not> isLikelyNoise r \<or> length (transcript r) > 5
            then s\<lparr>transcribedText := transcript r\<rparr> else s)
         else if isLikelyNoise r then s\<lparr>transcribedText := []\<rparr>
         else s\<lparr>inputText := transcript r, lastUserInput := transcript r, isListening := False,
                transcribedText := [], autoSendTimer := Some (transcript r, nowMs + 2000)\<rparr>)
      else s\<lparr>inputText := transcript r, isListening := False\<rparr>)"

record send_env =
  send_isSending :: bool
    \<comment> \<open>the value of \<open>isSending\<close> that the called \<open>sendMessage\<close> closed over: it is the state
        of the render that created this \<open>sendMessage\<close>, and \<open>setIsSending\<close> does not change it\<close>
  send_rnd :: string
  send_now :: string
  send_response :: "unit fetch_result"

definition sendMessage :: "send_env \<Rightarrow> string \<Rightarrow> chat_state \<Rightarrow> chat_state" where
  \<comment> \<open>\<open>sendMessage(text)\<close> of \<open>ChatWindow\<close>, without attachments\<close>
  "sendMessage env text s =
     (if \<not> truthy (trim text) \<or> send_isSending env then s
      else
        (let userMessage =
               \<lparr>msg_id = send_rnd env, msg_text = text, isUser = True, timestamp = send_now env,
                signInUrl = None, isSignInCard = False, adaptiveCard = None, speakText = None\<rparr>;
             s1 = s\<lparr>lastUserInput := text, transcribedText := [], isTyping := True,
                    messages := messages s @ [userMessage], isSending := True\<rparr>;
             s2 = (case service_sendMessage (send_response env) (chat_service s1) of
                     Inl err \<Rightarrow> s1\<lparr>consoleErrors := consoleErrors s1 @ [err]\<rparr>
                   | Inr _ \<Rightarrow> s1\<lparr>posted := posted s1 @ [text], inputText := []\<rparr>)
         in s2\<lparr>isSending := False\<rparr>))"

definition autoSendFire :: "int \<Rightarrow> send_env \<Rightarrow> chat_state \<Rightarrow> chat_state" where
  \<comment> \<open>the callback of the debounce timer, run at the time given once the delay has passed\<close>
  "autoSendFire nowMs env s =
     (case autoSendTimer s of
        None \<Rightarrow> s
      | Some (text, due) \<Rightarrow>
          if nowMs < due then s
          else (sendMessage env text (s\<lparr>autoSendTimer := None, isListening := False,
                                        isSending := True\<rparr>))
                 \<lparr>isSending := False, inputText := []\<rparr>)"

subsection \<open>Handlers of the user interface\<close>

definition handleDrivingModeStart :: "chat_state \<Rightarrow> chat_state" where
  "handleDrivingModeStart s =
     (if \<not> hasRecognition s then s
      else s\<lparr>transcribedText := [], lastUserInput := [], isListening := True\<rparr>)"

definition handleDrivingModeStop :: "chat_state \<Rightarrow> chat_state" where
  "handleDrivingModeStop s =
     s\<lparr>cancelSpeechRef := True, isPlaying := False, isSpeakingRef := False,
       pendingCancelResets := Suc (pendingCancelResets s),
       pendingMicRestarts := Suc (pendingMicRestarts s)\<rparr>"

definition cancelResetFire :: "chat_state \<Rightarrow> chat_state" where
  \<comment> \<open>the 100 ms timer of \<open>handleDrivingModeStop\<close>\<close>
  "cancelResetFire s =
     (if pendingCancelResets s = 0 then s
      else s\<lparr>cancelSpeechRef := False, pendingCancelResets := pendingCancelResets s - 1\<rparr>)"

definition micRestartFire :: "chat_state \<Rightarrow> chat_state" where
  \<comment> \<open>a timer that calls \<open>handleDrivingModeStart\<close>\<close>
  "micRestartFire s =
     (if pendingMicRestarts s = 0 then s
      else handleDrivingModeStart (s\<lparr>pendingMicRestarts := pendingMicRestarts s - 1\<rparr>))"

definition handleAudioPlay :: "chat_state \<Rightarrow> chat_state" where
  "handleAudioPlay s =
     s\<lparr>isMuted := False, isPaused := False, cancelSpeechRef := False, isSpeakingRef := False\<rparr>"

definition handleAudioPause :: "chat_state \<Rightarrow> chat_state" where
  "handleAudioPause s = s\<lparr>isPaused := True\<rparr>"

definition handleAudioStop :: "chat_state \<Rightarrow> chat_state" where
  "handleAudioStop s =
     s\<lparr>isMuted := True, isPaused := False, cancelSpeechRef := True, isSpeakingRef := False,
       isPlaying := False\<rparr>"

definition handleNewChat :: "chat_state \<Rightarrow> chat_state" where
  "handleNewChat s =
     s\<lparr>messages := [], seenMessageIds := {}, hasGreeted := False, lastUserInput := [],
       lastBotResponse := [], transcribedText := [],
       conversation_store := clearConversationState (conversation_store s)\<rparr>"

definition forceStopMic :: "chat_state \<Rightarrow> chat_state" where
  \<comment> \<open>the effect on \<open>[drivingMode, isPlaying]\<close>\<close>
  "forceStopMic s =
     (if drivingMode s \<and> isPlaying s \<and> hasRecognition s
      then s\<lparr>isListening := False, transcribedText := [], autoSendTimer := None\<rparr>
      else s)"

subsection \<open>Operations of a session\<close>

text \<open>
  Everything above that can run on the event loop of a session, one constructor for each.
  \<open>Poll\<close> is a tick whose fetch settles before anything else runs; \<open>PollStart\<close> and
  \<open>PollSettled\<close> are the two halves of a call, between which other operations may run.
  \<open>SetMuted\<close> and \<open>SetDrivingMode\<close> are the two toggles of the settings panel; changing
  \<open>drivingMode\<close> re-runs the recognition effect, whose cleanup clears the debounce timer.
  A poll that starts a walk leaves it suspended; \<open>SpeakSettled\<close> carries the suspended walk
  that the settled call resumes. \<open>handleNewChat\<close> also removes the stored messages and
  schedules \<open>triggerConversationStart\<close>; neither the stored messages nor that request are
  part of the state kept here.
\<close>

datatype operation =
    Poll poll_input
  | PollStart
  | PollSettled poll_call poll_input
  | SpeakSettled speak_outcome walk_task
  | RecognitionResult int recognition_result
  | AutoSendFire int send_env
  | SendMessage send_env string
  | NewChat
  | AudioPlay
  | AudioPause
  | AudioStop
  | DrivingModeStart
  | DrivingModeStop
  | CancelResetFire
  | MicRestartFire
  | ForceStopMic
  | SetMuted bool
  | SetDrivingMode bool

fun apply_op :: "operation \<Rightarrow> chat_state \<Rightarrow> chat_state" where
  "apply_op (Poll p) s = fst (pollMessages p s)"
| "apply_op PollStart s = snd (poll_start s)"
| "apply_op (PollSettled c p) s = fst (poll_settled c p s)"
| "apply_op (SpeakSettled outcome t) s = snd (walk_resume outcome t s)"
| "apply_op (RecognitionResult nowMs r) s = onresult nowMs r s"
| "apply_op (AutoSendFire nowMs env) s = autoSendFire nowMs env s"
| "apply_op (SendMessage env text) s = sendMessage env text s"
| "apply_op NewChat s = handleNewChat s"
| "apply_op AudioPlay s = handleAudioPlay s"
| "apply_op AudioPause s = handleAudioPause s"
| "apply_op AudioStop s = handleAudioStop s"
| "apply_op DrivingModeStart s = handleDrivingModeStart s"
| "apply_op DrivingModeStop s = handleDrivingModeStop s"
| "apply_op CancelResetFire s = cancelResetFire s"
| "apply_op MicRestartFire s = micRestartFire s"
| "apply_op ForceStopMic s = forceStopMic s"
| "apply_op (SetMuted b) s = s\<lparr>isMuted := b\<rparr>"
| "apply_op (SetDrivingMode b) s = s\<lparr>drivingMode := b, autoSendTimer := None\<rparr>"

definition run_ops :: "operation list \<Rightarrow> chat_state \<Rightarrow> chat_state" where
  "run_ops ops s = fold apply_op ops s"

definition run_polls :: "poll_input list \<Rightarrow> chat_state \<Rightarrow> chat_state" where
  \<comment> \<open>successive ticks of the poll interval\<close>
  "run_polls ps s = fold (\<lambda>p. apply_op (Poll p)) ps s"

section \<open>Notions used to state the properties\<close>

definition spec_speakable :: "card_content \<Rightarrow> string" where
  \<comment> \<open>the speakable text of a card in the words of the specification: the \<open>speak\<close> field
      when present, otherwise the text elements of the body joined with \<open>". "\<close>\<close>
  "spec_speakable c = (case speak c of Some sp \<Rightarrow> sp | None \<Rightarrow> join ''. '' (body_texts c))"

fun drive_walk ::
  "(operation list \<times> speak_outcome) list \<Rightarrow> walk_task option \<times> chat_state
     \<Rightarrow> walk_task option \<times> chat_state" where
  \<comment> \<open>follows one walk from a suspension to its exit: each entry of the schedule gives what
      else runs while the walk is suspended, and then how the awaited \<open>speak\<close> call settles;
      the walk stays suspended when the schedule ends before it has exited\<close>
  "drive_walk sched (None, s) = (None, s)"
| "drive_walk [] (Some t, s) = (Some t, s)"
| "drive_walk ((ops, outcome) # sched) (Some t, s) =
     drive_walk sched (walk_resume outcome t (run_ops ops s))"


definition poll_fails :: "poll_input \<Rightarrow> bool" where
  \<comment> \<open>the fetch throws, or the response is not \<open>ok\<close>\<close>
  "poll_fails p =
     (case poll_response p of
        FetchThrows e \<Rightarrow> True
      | Response status statusText data \<Rightarrow> \<not> ok status)"

definition poll_error :: "poll_input \<Rightarrow> string" where
  \<comment> \<open>the message of the error that \<open>getMessages\<close> throws when its fetch fails\<close>
  "poll_error p =
     (case poll_response p of
        FetchThrows e \<Rightarrow> e
      | Response status statusText data \<Rightarrow> ''Failed to get messages: '' @ statusText)"

definition op_input :: "operation \<Rightarrow> poll_input option" where
  \<comment> \<open>what the transport answers, for an operation in which a fetch of \<open>getMessages\<close>
      settles\<close>
  "op_input op = (case op of Poll p \<Rightarrow> Some p | PollSettled c p \<Rightarrow> Some p | _ \<Rightarrow> None)"


definition spokenTexts :: "chat_state \<Rightarrow> string list" where
  \<comment> \<open>the arguments of the calls of \<open>speak\<close>, in order\<close>
  "spokenTexts s = map (\<lambda>m. or_else (speakText m) []) (speakCalls s)"

definition newMessagesOf :: "poll_input \<Rightarrow> chat_state \<Rightarrow> message list" where
  \<comment> \<open>the value of \<open>newMessages\<close> in a poll cycle; none when \<open>getMessages\<close> throws\<close>
  "newMessagesOf p s = (case fst (fetchNewMessages p s) of Inl e \<Rightarrow> [] | Inr ms \<Rightarrow> ms)"

subsection \<open>Observers of a poll cycle\<close>

definition turn_key :: "activity \<Rightarrow> string" where
  \<comment> \<open>\<open>activity.id || ''\<close>, the key under which a turn is looked up in \<open>seenMessageIds\<close>\<close>
  "turn_key a = or_else (act_id a) []"

definition poll_activities :: "poll_input \<Rightarrow> activity list" where
  \<comment> \<open>the bot messages that an \<open>ok\<close> response of the transport carries\<close>
  "poll_activities p =
     (case poll_response p of
        FetchThrows e \<Rightarrow> []
      | Response status statusText data \<Rightarrow>
          if ok status then filter is_bot_message (fst data) else [])"

definition poll_kept :: "poll_input \<Rightarrow> chat_state \<Rightarrow> activity list" where
  \<comment> \<open>the activities of a cycle that pass the filter on \<open>seenMessageIds\<close>; none when
      \<open>getMessages\<close> throws\<close>
  "poll_kept p s =
     (case getMessages (poll_nowMs p) (poll_response p) (chat_service s, conversation_store s) of
        (Inl err, svc, st) \<Rightarrow> []
      | (Inr activities, svc, st) \<Rightarrow> fst (filterSeen (seenMessageIds s) activities))"

definition settled_kept :: "poll_input \<Rightarrow> chat_state \<Rightarrow> activity list" where
  \<comment> \<open>the same for a call whose fetch settles\<close>
  "settled_kept p s =
     (case getMessages_settled (poll_nowMs p) (poll_response p)
             (chat_service s, conversation_store s) of
        (Inl err, svc, st) \<Rightarrow> []
      | (Inr activities, svc, st) \<Rightarrow> fst (filterSeen (seenMessageIds s) activities))"

fun kept_trace :: "operation list \<Rightarrow> chat_state \<Rightarrow> activity list" where
  \<comment> \<open>all the activities that pass that filter in the course of a list of operations\<close>
  "kept_trace [] s = []"
| "kept_trace (op # ops) s =
     (case op of Poll p \<Rightarrow> poll_kept p s | PollSettled c p \<Rightarrow> settled_kept p s | _ \<Rightarrow> [])
       @ kept_trace ops (apply_op op s)"

definition content_bearing :: "activity \<Rightarrow> bool" where
  \<comment> \<open>whether the message mapped from a turn passes the last filter of the cycle\<close>
  "content_bearing a = hasContent (mapActivity [] [] a)"

subsection \<open>Sessions with their suspended walks\<close>

text \<open>
  A session is the state of the window together with the walks that are suspended. A
  poll that starts a walk adds it to them; only a walk that is suspended can be resumed,
  and what is left of it takes its place.
\<close>

definition walk_list :: "walk_task option \<Rightarrow> walk_task list" where
  "walk_list t = (case t of None \<Rightarrow> [] | Some w \<Rightarrow> [w])"

fun session_step ::
  "operation \<Rightarrow> chat_state \<times> walk_task list \<Rightarrow> chat_state \<times> walk_task list" where
  "session_step (Poll p) (s, pool) =
     (fst (pollMessages p s), pool @ walk_list (snd (pollMessages p s)))"
| "session_step (PollSettled c p) (s, pool) =
     (fst (poll_settled c p s), pool @ walk_list (snd (poll_settled c p s)))"
| "session_step (SpeakSettled outcome t) (s, pool) =
     (if t \<in> set pool
      then (snd (walk_resume outcome t s),
            remove1 t pool @ walk_list (fst (walk_resume outcome t s)))
      else (s, pool))"
| "session_step op (s, pool) = (apply_op op s, pool)"

definition run_session ::
  "operation list \<Rightarrow> chat_state \<times> walk_task list \<Rightarrow> chat_state \<times> walk_task list" where
  "run_session ops x = fold session_step ops x"

definition queued_ids :: "walk_task list \<Rightarrow> string list" where
  \<comment> \<open>the ids of the messages that the suspended walks still hold\<close>
  "queued_ids pool = concat (map (\<lambda>t. map msg_id (remaining t)) pool)"

definition handed_ids :: "chat_state \<times> walk_task list \<Rightarrow> string list" where
  \<comment> \<open>the ids of the messages that walks have taken: those for which \<open>speak\<close> was called,
      and those that the suspended walks still hold\<close>
  "handed_ids x = map msg_id (speakCalls (fst x)) @ queued_ids (snd x)"

definition spoken_once :: "chat_state \<times> walk_task list \<Rightarrow> bool" where
  \<comment> \<open>no id occurs twice among the messages spoken and those still held by the suspended
      walks, and all of them are in \<open>spokenMessageIds\<close>\<close>
  "spoken_once x =
     (distinct (handed_ids x) \<and> set (handed_ids x) \<subseteq> spokenMessageIds (fst x))"

section \<open>Sample inputs\<close>

text \<open>Concrete activities, responses and states on which the theorems below are run.\<close>

definition sample_service :: service where
  "sample_service =
     \<lparr>baseUrl = ''https://bot.example/v3/directline'', conversationId = Some ''conv1'',
      watermark = None, onStateChange = True\<rparr>"

definition initial_state :: chat_state where
  \<comment> \<open>a freshly mounted window on a started conversation, default settings\<close>
  "initial_state =
     \<lparr>messages = [], seenMessageIds = {}, spokenMessageIds = {},
      isSpeakingRef = False, cancelSpeechRef = False, hasGreeted = False, hasRecognition = True,
      autoSendTimer = None, isMuted = False, drivingMode = False, isPlaying = False,
      isPaused = False, isListening = False, isTyping = False, isSending = False,
      inputText = [], transcribedText = [], lastUserInput = [], lastBotResponse = [],
      chat_service = sample_service, conversation_store = Absent,
      speakCalls = [], posted = [], consoleErrors = [], pendingMicRestarts = 0,
      pendingCancelResets = 0\<rparr>"

definition text_turn :: "string \<Rightarrow> string \<Rightarrow> activity" where
  "text_turn i t =
     \<lparr>act_id = Some i, act_type = ''message'', from_id = ''bot'', act_text = Some t,
      act_timestamp = Some ''2024-01-01T00:00:00Z'', attachments = None,
      silentGreeting = None\<rparr>"

definition text_message :: "string \<Rightarrow> string \<Rightarrow> message" where
  "text_message i t =
     \<lparr>msg_id = i, msg_text = t, isUser = False, timestamp = ''2024-01-01T00:00:00Z'',
      signInUrl = None, isSignInCard = False, adaptiveCard = None, speakText = Some t\<rparr>"

definition two_turns :: poll_input where
  "two_turns =
     \<lparr>poll_response =
        Response 200 ''OK'' ([text_turn ''c|1'' ''Hello'', text_turn ''c|2'' ''World''], ''2''),
      poll_now = ''2024-01-01T00:00:05Z'', poll_nowMs = 5000, poll_rnd = (\<lambda>n. ''0.5'')\<rparr>"

definition image_card :: card_content where
  \<comment> \<open>an adaptive card whose body holds one element without text\<close>
  "image_card = \<lparr>buttons = None, body = Some [\<lparr>item_text = None\<rparr>], speak = None\<rparr>"

definition card_turn :: "string option \<Rightarrow> card_content \<Rightarrow> activity" where
  "card_turn t c =
     \<lparr>act_id = Some ''c|3'', act_type = ''message'', from_id = ''bot'', act_text = t,
      act_timestamp = None,
      attachments = Some [\<lparr>contentType = adaptive_type, content = Some c\<rparr>],
      silentGreeting = None\<rparr>"

definition weather_card :: card_content where
  "weather_card =
     \<lparr>buttons = None,
      body = Some [\<lparr>item_text = Some ''Weather''\<rparr>, \<lparr>item_text = None\<rparr>,
                   \<lparr>item_text = Some ''Sunny''\<rparr>],
      speak = None\<rparr>"

definition empty_turn :: activity where
  \<comment> \<open>no text, and an attachment that is neither a sign-in card nor an adaptive card\<close>
  "empty_turn =
     \<lparr>act_id = Some ''c|4'', act_type = ''message'', from_id = ''bot'', act_text = None,
      act_timestamp = None,
      attachments = Some [\<lparr>contentType = ''image/png'', content = None\<rparr>],
      silentGreeting = None\<rparr>"

definition speaking_state :: chat_state where
  \<comment> \<open>a walk holds the lock and is awaiting its first utterance\<close>
  "speaking_state = initial_state\<lparr>isSpeakingRef := True, isPlaying := True\<rparr>"

definition world_walk :: walk_task where
  \<comment> \<open>that walk: "World" is still to be spoken\<close>
  "world_walk = \<lparr>walk_drivingMode = False, remaining = [text_message ''c|2'' ''World'']\<rparr>"


definition first_call :: poll_call where
  \<comment> \<open>the call that a tick starts in \<open>initial_state\<close>\<close>
  "first_call =
     \<lparr>call_url = ''https://bot.example/v3/directline/conversations/conv1/activities'',
      call_isMuted = False, call_drivingMode = False\<rparr>"

definition muted_state :: chat_state where
  \<comment> \<open>the same window with the output muted\<close>
  "muted_state = initial_state\<lparr>isMuted := True\<rparr>"

definition muted_call :: poll_call where
  \<comment> \<open>the call that a tick starts in \<open>muted_state\<close>\<close>
  "muted_call = first_call\<lparr>call_isMuted := True\<rparr>"

definition later_turns :: poll_input where
  \<comment> \<open>the transport hands out the turn \<open>c|1\<close> once more, and a new turn\<close>
  "later_turns =
     \<lparr>poll_response =
        Response 200 ''OK'' ([text_turn ''c|1'' ''Hello'', text_turn ''c|3'' ''Again''], ''3''),
      poll_now = ''2024-01-01T00:00:20Z'', poll_nowMs = 20000, poll_rnd = (\<lambda>n. ''0.5'')\<rparr>"



definition saved_cursor :: conversation_state where
  "saved_cursor = \<lparr>cs_conversationId = ''conv1'', cs_watermark = Some ''5'', savedAt = 0\<rparr>"

definition resume_input :: "nat \<Rightarrow> init_input" where
  \<comment> \<open>the control is initialised one minute after the cursor was saved; the reconnect probe
      is answered with the status given, a start request with a new conversation\<close>
  "resume_input status =
     \<lparr>secret = Some ''s3cret'', endpoint = None,
      probe_result = Response status ''status text'' (),
      start_result = Response 201 ''Created'' ''conv2'',
      init_now = 60000\<rparr>"

definition greeted_state :: chat_state where
  \<comment> \<open>one bot message has been shown and spoken\<close>
  "greeted_state =
     initial_state\<lparr>messages := [text_message ''c|0'' ''Welcome''],
       seenMessageIds := {''c|0''}, spokenMessageIds := {''c|0''}\<rparr>"

definition lights_result :: recognition_result where
  "lights_result =
     \<lparr>transcript = ''turn on the lights'', isFinal = True, confidence = Some 0.9\<rparr>"

definition um_result :: recognition_result where
  "um_result = \<lparr>transcript = '' Um '', isFinal = True, confidence = Some 0.9\<rparr>"

definition driving_state :: chat_state where
  \<comment> \<open>hands-free mode, the microphone is listening\<close>
  "driving_state = initial_state\<lparr>drivingMode := True, isListening := True\<rparr>"

definition free_env :: send_env where
  \<comment> \<open>the \<open>sendMessage\<close> that the timer calls sees \<open>isSending\<close> false; the bot accepts the post\<close>
  "free_env =
     \<lparr>send_isSending = False, send_rnd = ''0.25'', send_now = ''2024-01-01T00:00:02Z'',
      send_response = Response 200 ''OK'' ()\<rparr>"

definition busy_env :: send_env where
  \<comment> \<open>the \<open>sendMessage\<close> that the timer calls sees \<open>isSending\<close> true\<close>
  "busy_env = free_env\<lparr>send_isSending := True\<rparr>"

definition replay_poll :: poll_input where
  \<comment> \<open>the transport hands out the turn \<open>c|1\<close> twice in one response\<close>
  "replay_poll =
     \<lparr>poll_response =
        Response 200 ''OK'' ([text_turn ''c|1'' ''Hello'', text_turn ''c|1'' ''Hello''], ''1''),
      poll_now = ''2024-01-01T00:00:02Z'', poll_nowMs = 2000, poll_rnd = (\<lambda>n. ''0.5'')\<rparr>"

definition idless_turn :: "string \<Rightarrow> activity" where
  "idless_turn t =
     \<lparr>act_id = None, act_type = ''message'', from_id = ''bot'', act_text = Some t,
      act_timestamp = Some ''2024-01-01T00:00:00Z'', attachments = None,
      silentGreeting = None\<rparr>"

definition idless_poll :: "string \<Rightarrow> string \<Rightarrow> poll_input" where
  \<comment> \<open>two turns without an id in one response\<close>
  "idless_poll t u =
     \<lparr>poll_response = Response 200 ''OK'' ([idless_turn t, idless_turn u], ''4''),
      poll_now = ''2024-01-01T00:00:17Z'', poll_nowMs = 17000, poll_rnd = (\<lambda>n. ''0.5'')\<rparr>"

section \<open>Properties of the mapper\<close>

lemmas mapper_defs =
  mapActivity_def card_speakText_def card_messageText_def has_body_def body_texts_def
  first_button_value_def hasContent_def or_else_def truthy_def
  adaptive_type_def oauth_type_def signin_type_def

text \<open>
  C8, as stated, fails: a turn with the text "Hello" that carries an adaptive card without
  a \<open>speak\<close> field and without any text element is spoken as "Hello", while the text
  elements of the card joined with ". " give the empty string.
\<close>

theorem card_speakable_counterexample:
  "attachments (card_turn (Some ''Hello'') image_card)
     = Some [\<lparr>contentType = adaptive_type, content = Some image_card\<rparr>]
   \<and> spec_speakable image_card = []
   \<and> speakText (mapActivity ''0.5'' ''now'' (card_turn (Some ''Hello'') image_card))
     = Some ''Hello''"
  by (simp add: mapper_defs card_turn_def image_card_def spec_speakable_def Let_def)

text \<open>
  C8, amended: for every turn whose first attachment is an adaptive card with a content,
  the speakable text of the mapped message is the \<open>speak\<close> field of the card when that is a
  non-empty string, otherwise the non-empty text elements of the card body joined with
  ". " when that gives a non-empty string, otherwise the display text of the message; the
  display text is the text of the turn when it has one, otherwise the non-empty text
  elements of the card body joined with single spaces. A turn without text whose first
  attachment, if any, is neither a sign-in card nor an adaptive card with a content
  produces no chat message.
\<close>

theorem adaptive_card_mapping:
  "(attachments a = Some (att # rest) \<and> contentType att = adaptive_type \<and> content att = Some c
      \<longrightarrow> speakText (mapActivity rnd now a) =
            Some (if truthy (or_else (speak c) []) then the (speak c)
                  else if truthy (join ''. '' (body_texts c)) then join ''. '' (body_texts c)
                  else msg_text (mapActivity rnd now a))
          \<and> msg_text (mapActivity rnd now a) =
            (if truthy (or_else (act_text a) []) then the (act_text a)
             else join '' '' (body_texts c))
          \<and> adaptiveCard (mapActivity rnd now a) = Some c)
   \<and> (\<not> truthy (or_else (act_text a) [])
        \<and> (\<forall>att rest. attachments a = Some (att # rest) \<longrightarrow>
               contentType att \<noteq> oauth_type \<and> contentType att \<noteq> signin_type
               \<and> (contentType att = adaptive_type \<longrightarrow> content att = None))
      \<longrightarrow> \<not> hasContent (mapActivity rnd now a)
          \<and> filter hasContent (mapActivities (\<lambda>n. rnd) k now [a]) = [])"
proof (intro conjI impI)
  assume h: "attachments a = Some (att # rest) \<and> contentType att = adaptive_type
    \<and> content att = Some c"
  then show "speakText (mapActivity rnd now a) =
            Some (if truthy (or_else (speak c) []) then the (speak c)
                  else if truthy (join ''. '' (body_texts c)) then join ''. '' (body_texts c)
                  else msg_text (mapActivity rnd now a))"
    by (auto simp: mapper_defs Let_def split: option.splits)
  from h show "msg_text (mapActivity rnd now a) =
            (if truthy (or_else (act_text a) []) then the (act_text a)
             else join '' '' (body_texts c))"
    by (auto simp: mapper_defs Let_def split: option.splits)
  from h show "adaptiveCard (mapActivity rnd now a) = Some c"
    by (auto simp: mapper_defs Let_def split: option.splits)
next
  assume h: "\<not> truthy (or_else (act_text a) [])
        \<and> (\<forall>att rest. attachments a = Some (att # rest) \<longrightarrow>
               contentType att \<noteq> oauth_type \<and> contentType att \<noteq> signin_type
               \<and> (contentType att = adaptive_type \<longrightarrow> content att = None))"
  then show n: "\<not> hasContent (mapActivity rnd now a)"
    by (cases "attachments a"; cases "the (attachments a)")
       (auto simp: mapActivity_def hasContent_def Let_def truthy_def split: option.splits list.splits)
  then show "filter hasContent (mapActivities (\<lambda>n. rnd) k now [a]) = []"
    by simp
qed

theorem adaptive_card_mapping_witness:
  "speakText (mapActivity ''0.5'' ''now'' (card_turn None weather_card)) = Some ''Weather. Sunny''
   \<and> msg_text (mapActivity ''0.5'' ''now'' (card_turn None weather_card)) = ''Weather Sunny''
   \<and> speakText (mapActivity ''0.5'' ''now'' (card_turn (Some ''Hello'') image_card)) = Some ''Hello''
   \<and> \<not> hasContent (mapActivity ''0.5'' ''now'' empty_turn)
   \<and> filter hasContent (mapActivities (\<lambda>n. ''0.5'') 0 ''now'' [empty_turn]) = []"
proof -
  let ?att1 = "\<lparr>contentType = adaptive_type, content = Some weather_card\<rparr>"
  let ?att2 = "\<lparr>contentType = adaptive_type, content = Some image_card\<rparr>"
  have a1: "attachments (card_turn None weather_card) = Some (?att1 # [])
    \<and> contentType ?att1 = adaptive_type \<and> content ?att1 = Some weather_card"
    by (simp add: card_turn_def)
  have a2: "attachments (card_turn (Some ''Hello'') image_card) = Some (?att2 # [])
    \<and> contentType ?att2 = adaptive_type \<and> content ?att2 = Some image_card"
    by (simp add: card_turn_def)
  have a3: "\<not> truthy (or_else (act_text empty_turn) [])
        \<and> (\<forall>att rest. attachments empty_turn = Some (att # rest) \<longrightarrow>
               contentType att \<noteq> oauth_type \<and> contentType att \<noteq> signin_type
               \<and> (contentType att = adaptive_type \<longrightarrow> content att = None))"
    by (auto simp: empty_turn_def or_else_def truthy_def oauth_type_def signin_type_def
        adaptive_type_def)
  from adaptive_card_mapping[of "card_turn None weather_card" ?att1 "[]" weather_card
      "''0.5''" "''now''" 0, THEN conjunct1, THEN mp, OF a1]
  have w1: "speakText (mapActivity ''0.5'' ''now'' (card_turn None weather_card)) = Some ''Weather. Sunny''
   \<and> msg_text (mapActivity ''0.5'' ''now'' (card_turn None weather_card)) = ''Weather Sunny''"
    by (simp add: weather_card_def card_turn_def body_texts_def or_else_def truthy_def)
  from adaptive_card_mapping[of "card_turn (Some ''Hello'') image_card" ?att2 "[]" image_card
      "''0.5''" "''now''" 0, THEN conjunct1, THEN mp, OF a2]
  have w2: "speakText (mapActivity ''0.5'' ''now'' (card_turn (Some ''Hello'') image_card)) = Some ''Hello''"
    by (simp add: image_card_def card_turn_def body_texts_def or_else_def truthy_def)
  from adaptive_card_mapping[of empty_turn _ _ _ "''0.5''" "''now''" 0, THEN conjunct2, THEN mp, OF a3]
  have w3: "\<not> hasContent (mapActivity ''0.5'' ''now'' empty_turn)
   \<and> filter hasContent (mapActivities (\<lambda>n. ''0.5'') 0 ''now'' [empty_turn]) = []"
    by simp
  from w1 w2 w3 show ?thesis by simp
qed

section \<open>What a poll and a walk leave untouched\<close>

lemma markUnspoken_fst:
  "fst (markUnspoken ids (m # ms)) =
     (if truthy (or_else (speakText m) []) \<and> msg_id m \<notin> ids
      then m # fst (markUnspoken (insert (msg_id m) ids) ms)
      else fst (markUnspoken ids ms))"
  by (simp split: prod.splits)

lemma markUnspoken_snd:
  "snd (markUnspoken ids ms) = ids \<union> msg_id ` set (fst (markUnspoken ids ms))"
  by (induction ids ms rule: markUnspoken.induct) (auto split: prod.splits)

lemma markUnspoken_ids: "ids \<subseteq> snd (markUnspoken ids ms)"
  by (simp add: markUnspoken_snd)

lemma markUnspoken_subset: "set (fst (markUnspoken ids ms)) \<subseteq> set ms"
  by (induction ids ms rule: markUnspoken.induct) (auto split: prod.splits)

lemma markUnspoken_all_marked:
  "m \<in> set ms \<Longrightarrow> truthy (or_else (speakText m) []) \<Longrightarrow> msg_id m \<in> snd (markUnspoken ids ms)"
proof (induction ids ms rule: markUnspoken.induct)
  case (1 ids)
  then show ?case by simp
next
  case (2 ids x xs)
  then show ?case
    using markUnspoken_ids[of "insert (msg_id x) ids" xs] markUnspoken_ids[of ids xs]
    by (auto split: prod.splits)
qed

lemma markUnspoken_fresh:
  "m \<in> set (fst (markUnspoken ids ms)) \<Longrightarrow> msg_id m \<notin> ids"
proof (induction ids ms rule: markUnspoken.induct)
  case (1 ids)
  then show ?case by simp
next
  case (2 ids x xs)
  then show ?case
    by (auto split: prod.splits if_splits)
qed

lemma markUnspoken_distinct: "distinct (map msg_id (fst (markUnspoken ids ms)))"
proof (induction ids ms rule: markUnspoken.induct)
  case (1 ids)
  then show ?case by simp
next
  case (2 ids x xs)
  show ?case
  proof (cases "truthy (or_else (speakText x) []) \<and> msg_id x \<notin> ids")
    case True
    have "msg_id x \<notin> msg_id ` set (fst (markUnspoken (insert (msg_id x) ids) xs))"
      by (metis imageE insertI1 markUnspoken_fresh)
    with True 2(1) show ?thesis
      by (simp only: markUnspoken_fst) simp
  next
    case False
    with 2(2) show ?thesis by auto
  qed
qed

lemma walk_loop_frame:
  "chat_service (snd (walk_loop dm ms s)) = chat_service s
   \<and> conversation_store (snd (walk_loop dm ms s)) = conversation_store s
   \<and> seenMessageIds (snd (walk_loop dm ms s)) = seenMessageIds s
   \<and> spokenMessageIds (snd (walk_loop dm ms s)) = spokenMessageIds s
   \<and> messages (snd (walk_loop dm ms s)) = messages s"
  by (cases ms) (simp_all add: walk_finally_def)

lemma walk_start_frame:
  "chat_service (snd (walk_start dm ms s)) = chat_service s
   \<and> conversation_store (snd (walk_start dm ms s)) = conversation_store s
   \<and> seenMessageIds (snd (walk_start dm ms s)) = seenMessageIds s
   \<and> spokenMessageIds (snd (walk_start dm ms s)) = spokenMessageIds s
   \<and> messages (snd (walk_start dm ms s)) = messages s"
  unfolding walk_start_def by (simp add: walk_loop_frame)

lemma walk_resume_frame:
  "chat_service (snd (walk_resume outcome t s)) = chat_service s
   \<and> conversation_store (snd (walk_resume outcome t s)) = conversation_store s
   \<and> seenMessageIds (snd (walk_resume outcome t s)) = seenMessageIds s
   \<and> spokenMessageIds (snd (walk_resume outcome t s)) = spokenMessageIds s
   \<and> messages (snd (walk_resume outcome t s)) = messages s"
  unfolding walk_resume_def by (cases outcome) (simp_all add: walk_loop_frame)

lemma speakNewMessages_frame:
  "chat_service (fst (speakNewMessages dm ms s)) = chat_service s
   \<and> conversation_store (fst (speakNewMessages dm ms s)) = conversation_store s
   \<and> seenMessageIds (fst (speakNewMessages dm ms s)) = seenMessageIds s
   \<and> spokenMessageIds (fst (speakNewMessages dm ms s)) = snd (markUnspoken (spokenMessageIds s) ms)
   \<and> messages (fst (speakNewMessages dm ms s)) = messages s"
  by (cases "markUnspoken (spokenMessageIds s) ms")
     (simp add: speakNewMessages_def Let_def walk_start_frame split_beta)

lemma newMessagesFrom_frame:
  "\<exists>svc st seen. snd (newMessagesFrom p s r)
     = s\<lparr>chat_service := svc, conversation_store := st, seenMessageIds := seen\<rparr>"
proof (cases r)
  case (fields x svc st)
  show ?thesis
  proof (cases x)
    case (Inl e)
    have "s = s\<lparr>chat_service := chat_service s, conversation_store := conversation_store s,
      seenMessageIds := seenMessageIds s\<rparr>" by simp
    moreover have "snd (newMessagesFrom p s r) = s"
      using fields Inl by (simp add: newMessagesFrom_def)
    ultimately show ?thesis by metis
  next
    case (Inr acts)
    then show ?thesis using fields
      by (auto simp: newMessagesFrom_def split: prod.splits)
  qed
qed

lemma fetch_frame:
  "\<exists>svc st seen. snd (fetchNewMessages p s)
     = s\<lparr>chat_service := svc, conversation_store := st, seenMessageIds := seen\<rparr>"
  unfolding fetchNewMessages_def by (rule newMessagesFrom_frame)

lemma settled_frame:
  "\<exists>svc st seen. snd (settledNewMessages p s)
     = s\<lparr>chat_service := svc, conversation_store := st, seenMessageIds := seen\<rparr>"
  unfolding settledNewMessages_def by (rule newMessagesFrom_frame)

lemma handleNewMessages_frame:
  "chat_service (fst (handleNewMessages muted dm r)) = chat_service (snd r)
   \<and> conversation_store (fst (handleNewMessages muted dm r)) = conversation_store (snd r)
   \<and> seenMessageIds (fst (handleNewMessages muted dm r)) = seenMessageIds (snd r)
   \<and> messages (fst (handleNewMessages muted dm r))
       = messages (snd r) @ (case fst r of Inl e \<Rightarrow> [] | Inr ms \<Rightarrow> ms)
   \<and> spokenMessageIds (snd r) \<subseteq> spokenMessageIds (fst (handleNewMessages muted dm r))"
proof (cases r)
  case (Pair x s1)
  show ?thesis
  proof (cases x)
    case (Inl e)
    with Pair show ?thesis by (simp add: handleNewMessages_def)
  next
    case (Inr ms)
    with Pair show ?thesis
      using markUnspoken_ids[of "spokenMessageIds s1" ms]
      by (simp add: handleNewMessages_def Let_def speakNewMessages_frame)
  qed
qed

lemma getMessages_started:
  "started (fst ss) \<Longrightarrow> getMessages nowMs resp ss = getMessages_settled nowMs resp ss"
  by (simp add: getMessages_def)

lemma fetch_started:
  "started (chat_service s) \<Longrightarrow> fetchNewMessages p s = settledNewMessages p s"
  by (simp add: fetchNewMessages_def settledNewMessages_def getMessages_started)

lemma fetch_not_started:
  "\<not> started (chat_service s) \<Longrightarrow> fetchNewMessages p s = (Inl ''Conversation not started'', s)"
  by (simp add: fetchNewMessages_def getMessages_def newMessagesFrom_def)

lemma pollMessages_started:
  "started (chat_service s) \<Longrightarrow>
     pollMessages p s
       = poll_settled \<lparr>call_url = u, call_isMuted = isMuted s, call_drivingMode = drivingMode s\<rparr> p s"
  by (simp add: pollMessages_def poll_settled_def fetch_started)

lemma pollMessages_not_started:
  "\<not> started (chat_service s) \<Longrightarrow>
     pollMessages p s = (s\<lparr>consoleErrors := consoleErrors s @ [''Conversation not started'']\<rparr>, None)"
  by (simp add: pollMessages_def fetch_not_started handleNewMessages_def)

lemma pollMessages_halves:
  "pollMessages p s =
     (case poll_start s of
        (None, s1) \<Rightarrow> (s1, None)
      | (Some c, s1) \<Rightarrow> poll_settled c p s1)"
proof (cases "started (chat_service s)")
  case True
  then show ?thesis
    by (simp add: poll_start_def getMessages_url_def pollMessages_started)
next
  case False
  then show ?thesis
    by (simp add: poll_start_def getMessages_url_def pollMessages_not_started)
qed

lemma pollMessages_frame:
  "chat_service (fst (pollMessages p s)) = chat_service (snd (fetchNewMessages p s))
   \<and> conversation_store (fst (pollMessages p s)) = conversation_store (snd (fetchNewMessages p s))
   \<and> seenMessageIds (fst (pollMessages p s)) = seenMessageIds (snd (fetchNewMessages p s))
   \<and> messages (fst (pollMessages p s)) = messages s @ newMessagesOf p s"
proof -
  obtain svc st seen where "snd (fetchNewMessages p s)
     = s\<lparr>chat_service := svc, conversation_store := st, seenMessageIds := seen\<rparr>"
    using fetch_frame by blast
  then show ?thesis
    using handleNewMessages_frame[of "isMuted s" "drivingMode s" "fetchNewMessages p s"]
    by (simp add: pollMessages_def newMessagesOf_def)
qed

lemma poll_settled_frame:
  "chat_service (fst (poll_settled c p s)) = chat_service (snd (settledNewMessages p s))
   \<and> conversation_store (fst (poll_settled c p s))
       = conversation_store (snd (settledNewMessages p s))
   \<and> seenMessageIds (fst (poll_settled c p s)) = seenMessageIds (snd (settledNewMessages p s))
   \<and> messages (fst (poll_settled c p s))
       = messages s @ (case fst (settledNewMessages p s) of Inl e \<Rightarrow> [] | Inr ms \<Rightarrow> ms)
   \<and> spokenMessageIds s \<subseteq> spokenMessageIds (fst (poll_settled c p s))"
proof -
  obtain svc st seen where "snd (settledNewMessages p s)
     = s\<lparr>chat_service := svc, conversation_store := st, seenMessageIds := seen\<rparr>"
    using settled_frame by blast
  then show ?thesis
    using handleNewMessages_frame[of "call_isMuted c" "call_drivingMode c" "settledNewMessages p s"]
    by (simp add: poll_settled_def)
qed

lemmas poll_eval =
  pollMessages_def poll_settled_def poll_start_def handleNewMessages_def fetchNewMessages_def
  settledNewMessages_def newMessagesFrom_def getMessages_def getMessages_settled_def
  getMessages_url_def activities_url_def started_def speakNewMessages_def walk_start_def
  walk_finally_def is_bot_message_def ok_def mapActivity_def hasContent_def or_else_def
  truthy_def saveConversationState_def Let_def

lemmas sample_eval =
  sample_service_def initial_state_def text_turn_def text_message_def two_turns_def

section \<open>Properties of the speech walk\<close>

lemma walk_loop_exit: "fst (walk_loop dm ms s) = None \<Longrightarrow> \<not> isSpeakingRef (snd (walk_loop dm ms s))"
  by (cases ms) (auto simp: walk_finally_def split: if_splits)

lemma walk_loop_cancelled: "cancelSpeechRef s \<Longrightarrow> fst (walk_loop dm ms s) = None"
  by (cases ms) auto

lemma walk_loop_shrinks:
  "fst (walk_loop dm ms s) = Some t \<Longrightarrow> length (remaining t) < length ms"
  by (cases ms) (auto split: if_splits)

lemma drive_walk_exits:
  "length (remaining t) < length sched \<Longrightarrow>
     fst (drive_walk sched (Some t, s)) = None
     \<and> \<not> isSpeakingRef (snd (drive_walk sched (Some t, s)))"
proof (induction sched arbitrary: t s)
  case Nil
  then show ?case by simp
next
  case (Cons e sched)
  obtain ops outcome where e: "e = (ops, outcome)" by (cases e)
  let ?r = "walk_resume outcome t (run_ops ops s)"
  show ?case
  proof (cases "fst ?r")
    case None
    then have "\<not> isSpeakingRef (snd ?r)"
      unfolding walk_resume_def by (rule walk_loop_exit)
    with None show ?thesis
      by (cases ?r) (simp add: e)
  next
    case (Some t')
    then have "length (remaining t') < length (remaining t)"
      unfolding walk_resume_def by (rule walk_loop_shrinks)
    with Cons.prems have "length (remaining t') < length sched" by simp
    from Cons.IH[OF this, of "snd ?r"] Some show ?thesis
      by (cases ?r) (simp add: e)
  qed
qed

lemma speak_lock:
  assumes "\<not> isSpeakingRef s" and "snd (speakNewMessages dm ms s) = None"
  shows "\<not> isSpeakingRef (fst (speakNewMessages dm ms s))"
proof (cases "markUnspoken (spokenMessageIds s) ms")
  case (Pair unspoken ids')
  show ?thesis
  proof (cases "unspoken = []")
    case True
    with Pair assms show ?thesis by (simp add: speakNewMessages_def)
  next
    case False
    let ?w = "walk_start dm unspoken (s\<lparr>spokenMessageIds := ids', isSpeakingRef := True\<rparr>)"
    from Pair False assms have eq: "speakNewMessages dm ms s = (snd ?w, fst ?w)"
      by (simp add: speakNewMessages_def split: prod.splits)
    with assms have "fst ?w = None" by simp
    then have "\<not> isSpeakingRef (snd ?w)"
      unfolding walk_start_def by (rule walk_loop_exit)
    with eq show ?thesis by simp
  qed
qed

lemma handle_lock:
  assumes "\<not> isSpeakingRef (snd r)" and "snd (handleNewMessages muted dm r) = None"
  shows "\<not> isSpeakingRef (fst (handleNewMessages muted dm r))"
proof (cases r)
  case (Pair x s1)
  show ?thesis
  proof (cases x)
    case (Inl e)
    with Pair assms show ?thesis by (simp add: handleNewMessages_def)
  next
    case (Inr ms)
    let ?s2 = "s1\<lparr>isTyping := False, messages := messages s1 @ ms,
        lastBotResponse := (if truthy (or_else (speakText (last ms)) [])
           then or_else (speakText (last ms)) [] else lastBotResponse s1)\<rparr>"
    have l: "\<not> isSpeakingRef ?s2" using Pair assms by simp
    show ?thesis
    proof (cases "ms \<noteq> [] \<and> (\<not> muted \<or> dm)")
      case True
      with Pair Inr have eq: "handleNewMessages muted dm r = speakNewMessages dm ms ?s2"
        by (simp add: handleNewMessages_def Let_def)
      with assms speak_lock[OF l] show ?thesis by simp
    next
      case False
      with Pair Inr assms show ?thesis
        by (auto simp: handleNewMessages_def Let_def)
    qed
  qed
qed

lemma poll_lock:
  assumes "\<not> isSpeakingRef s \<and> snd (pollMessages p s) = None"
  shows "\<not> isSpeakingRef (fst (pollMessages p s))"
proof -
  obtain svc st seen where "snd (fetchNewMessages p s)
     = s\<lparr>chat_service := svc, conversation_store := st, seenMessageIds := seen\<rparr>"
    using fetch_frame by blast
  with assms have "\<not> isSpeakingRef (snd (fetchNewMessages p s))" by simp
  from handle_lock[OF this] assms show ?thesis by (simp add: pollMessages_def)
qed

lemma settled_lock:
  assumes "\<not> isSpeakingRef s \<and> snd (poll_settled c p s) = None"
  shows "\<not> isSpeakingRef (fst (poll_settled c p s))"
proof -
  obtain svc st seen where "snd (settledNewMessages p s)
     = s\<lparr>chat_service := svc, conversation_store := st, seenMessageIds := seen\<rparr>"
    using settled_frame by blast
  with assms have "\<not> isSpeakingRef (snd (settledNewMessages p s))" by simp
  from handle_lock[OF this] assms show ?thesis by (simp add: poll_settled_def)
qed

text \<open>
  C3: the speaking lock is released on every exit path of a speech walk. A walk that
  exits, when it is started or when it is resumed, leaves \<open>isSpeakingRef\<close> false; a walk
  exits when no message remains or when the cancellation flag is set at the head of an
  iteration; whatever runs while the walk is suspended and however the awaited calls
  settle, rejected or resolved, a walk whose awaited calls all settle has exited with the
  lock released; a rejection is logged and goes no further; and a poll that found the lock
  free and leaves no suspended walk leaves the lock free, also when other operations ran
  while its fetch was pending.
\<close>

theorem speaking_lock_released_on_exit:
  "(fst (walk_start dm ms s) = None \<longrightarrow> \<not> isSpeakingRef (snd (walk_start dm ms s)))
   \<and> (fst (walk_resume outcome t s) = None \<longrightarrow> \<not> isSpeakingRef (snd (walk_resume outcome t s)))
   \<and> (remaining t = [] \<or> cancelSpeechRef s \<longrightarrow> fst (walk_resume outcome t s) = None)
   \<and> (length (remaining t) < length sched \<longrightarrow>
        fst (drive_walk sched (Some t, s)) = None
        \<and> \<not> isSpeakingRef (snd (drive_walk sched (Some t, s))))
   \<and> consoleErrors (snd (walk_resume (Rejected e) t s)) = consoleErrors s @ [e]
   \<and> (\<not> isSpeakingRef s \<and> snd (pollMessages p s) = None
        \<longrightarrow> \<not> isSpeakingRef (fst (pollMessages p s)))
   \<and> (\<not> isSpeakingRef s \<and> snd (poll_settled c p s) = None
        \<longrightarrow> \<not> isSpeakingRef (fst (poll_settled c p s)))"
proof (intro conjI impI)
  show "fst (walk_start dm ms s) = None \<Longrightarrow> \<not> isSpeakingRef (snd (walk_start dm ms s))"
    unfolding walk_start_def by (rule walk_loop_exit)
  show "fst (walk_resume outcome t s) = None \<Longrightarrow> \<not> isSpeakingRef (snd (walk_resume outcome t s))"
    unfolding walk_resume_def by (rule walk_loop_exit)
  show "remaining t = [] \<or> cancelSpeechRef s \<Longrightarrow> fst (walk_resume outcome t s) = None"
    by (cases outcome; cases "remaining t") (auto simp: walk_resume_def)
  show "length (remaining t) < length sched \<Longrightarrow> fst (drive_walk sched (Some t, s)) = None"
    using drive_walk_exits by blast
  show "length (remaining t) < length sched \<Longrightarrow>
      \<not> isSpeakingRef (snd (drive_walk sched (Some t, s)))"
    using drive_walk_exits by blast
  show "consoleErrors (snd (walk_resume (Rejected e) t s)) = consoleErrors s @ [e]"
    by (cases "remaining t") (auto simp: walk_resume_def walk_finally_def)
  show "\<not> isSpeakingRef s \<and> snd (pollMessages p s) = None
      \<Longrightarrow> \<not> isSpeakingRef (fst (pollMessages p s))"
    by (rule poll_lock)
  show "\<not> isSpeakingRef s \<and> snd (poll_settled c p s) = None
      \<Longrightarrow> \<not> isSpeakingRef (fst (poll_settled c p s))"
    by (rule settled_lock)
qed

lemmas walk_defs = walk_resume_def walk_start_def walk_finally_def run_ops_def spokenTexts_def
  handleAudioStop_def speaking_state_def world_walk_def initial_state_def text_message_def
  or_else_def truthy_def

theorem speaking_lock_released_on_exit_witness:
  "\<not> isSpeakingRef (snd (drive_walk [([], Resolved), ([], Resolved)] (Some world_walk, speaking_state)))
   \<and> spokenTexts (snd (drive_walk [([], Resolved), ([], Resolved)] (Some world_walk, speaking_state)))
       = [''World'']
   \<and> \<not> isSpeakingRef (snd (drive_walk [([AudioStop], Resolved), ([], Resolved)]
         (Some world_walk, speaking_state)))
   \<and> spokenTexts (snd (drive_walk [([AudioStop], Resolved), ([], Resolved)]
         (Some world_walk, speaking_state))) = []
   \<and> \<not> isSpeakingRef (snd (drive_walk [([], Rejected ''boom''), ([], Rejected ''bang'')]
         (Some world_walk, speaking_state)))
   \<and> consoleErrors (snd (drive_walk [([], Rejected ''boom''), ([], Rejected ''bang'')]
         (Some world_walk, speaking_state))) = [''boom'', ''bang'']
   \<and> \<not> isSpeakingRef (snd (walk_start False [text_message ''c|1'' ''Hello'']
         (speaking_state\<lparr>cancelSpeechRef := True\<rparr>)))
   \<and> \<not> isSpeakingRef (fst (pollMessages two_turns (initial_state\<lparr>cancelSpeechRef := True\<rparr>)))"
proof -
  have len: "length (remaining world_walk) < length [([]::operation list, Resolved), ([], Resolved)]"
    "length (remaining world_walk) < length [([AudioStop], Resolved), ([], Resolved)]"
    "length (remaining world_walk) < length [([]::operation list, Rejected ''boom''), ([], Rejected ''bang'')]"
    by (simp_all add: world_walk_def)
  note w1 = speaking_lock_released_on_exit[of False "[]" speaking_state Resolved world_walk
      "[([], Resolved), ([], Resolved)]" "[]" two_turns]
  note w2 = speaking_lock_released_on_exit[of False "[]" speaking_state Resolved world_walk
      "[([AudioStop], Resolved), ([], Resolved)]" "[]" two_turns]
  note w3 = speaking_lock_released_on_exit[of False "[]" speaking_state Resolved world_walk
      "[([], Rejected ''boom''), ([], Rejected ''bang'')]" "[]" two_turns]
  note w4 = speaking_lock_released_on_exit[of False "[text_message ''c|1'' ''Hello'']"
      "speaking_state\<lparr>cancelSpeechRef := True\<rparr>" Resolved world_walk "[]" "[]" two_turns]
  note w5 = speaking_lock_released_on_exit[of False "[]"
      "initial_state\<lparr>cancelSpeechRef := True\<rparr>" Resolved world_walk "[]" "[]" two_turns]
  have c1: "spokenTexts (snd (drive_walk [([], Resolved), ([], Resolved)] (Some world_walk, speaking_state)))
       = [''World'']"
    by (simp add: walk_defs)
  have c2: "spokenTexts (snd (drive_walk [([AudioStop], Resolved), ([], Resolved)]
         (Some world_walk, speaking_state))) = []"
    by (simp add: walk_defs)
  have c3: "consoleErrors (snd (drive_walk [([], Rejected ''boom''), ([], Rejected ''bang'')]
         (Some world_walk, speaking_state))) = [''boom'', ''bang'']"
    by (simp add: walk_defs)
  have h4: "fst (walk_start False [text_message ''c|1'' ''Hello'']
         (speaking_state\<lparr>cancelSpeechRef := True\<rparr>)) = None"
    by (simp add: walk_defs)
  have h5: "\<not> isSpeakingRef (initial_state\<lparr>cancelSpeechRef := True\<rparr>)
     \<and> snd (pollMessages two_turns (initial_state\<lparr>cancelSpeechRef := True\<rparr>)) = None"
    by (simp add: sample_eval poll_eval)
  from w1 len(1) have r1: "\<not> isSpeakingRef (snd (drive_walk [([], Resolved), ([], Resolved)] (Some world_walk, speaking_state)))"
    by blast
  from w2 len(2) have r2: "\<not> isSpeakingRef (snd (drive_walk [([AudioStop], Resolved), ([], Resolved)]
         (Some world_walk, speaking_state)))"
    by blast
  from w3 len(3) have r3: "\<not> isSpeakingRef (snd (drive_walk [([], Rejected ''boom''), ([], Rejected ''bang'')]
         (Some world_walk, speaking_state)))"
    by blast
  from w4 h4 have r4: "\<not> isSpeakingRef (snd (walk_start False [text_message ''c|1'' ''Hello'']
         (speaking_state\<lparr>cancelSpeechRef := True\<rparr>)))"
    by blast
  from w5 h5 have r5: "\<not> isSpeakingRef (fst (pollMessages two_turns (initial_state\<lparr>cancelSpeechRef := True\<rparr>)))"
    by blast
  from r1 r2 r3 r4 r5 c1 c2 c3 show ?thesis by blast
qed

section \<open>The watermark cursor\<close>

lemma settled_service:
  "chat_service (snd (settledNewMessages p s))
     = (chat_service s)\<lparr>watermark :=
         (case poll_response p of
            FetchThrows e \<Rightarrow> watermark (chat_service s)
          | Response status statusText data \<Rightarrow>
              if ok status then Some (snd data) else watermark (chat_service s))\<rparr>"
  by (cases "poll_response p")
     (simp_all add: settledNewMessages_def newMessagesFrom_def getMessages_settled_def split_beta)

lemma poll_settled_service:
  "chat_service (fst (poll_settled c p s))
     = (chat_service s)\<lparr>watermark :=
         (case poll_response p of
            FetchThrows e \<Rightarrow> watermark (chat_service s)
          | Response status statusText data \<Rightarrow>
              if ok status then Some (snd data) else watermark (chat_service s))\<rparr>"
  by (simp add: poll_settled_frame settled_service)

lemma poll_service:
  "started (chat_service s) \<Longrightarrow>
   chat_service (fst (pollMessages p s))
     = (chat_service s)\<lparr>watermark :=
         (case poll_response p of
            FetchThrows e \<Rightarrow> watermark (chat_service s)
          | Response status statusText data \<Rightarrow>
              if ok status then Some (snd data) else watermark (chat_service s))\<rparr>"
  using pollMessages_started[of s p "[]"] by (simp add: poll_settled_service)





lemma run_polls_Cons: "run_polls (p # ps) s = run_polls ps (fst (pollMessages p s))"
  by (simp add: run_polls_def)







section \<open>Reconnection\<close>

lemma not_ok_403_404: "status = 403 \<or> status = 404 \<Longrightarrow> \<not> ok status"
  by (auto simp: ok_def)

text \<open>
  C6: the control is initialised with a secret and a stored cursor that has not expired. If
  the reconnect probe is answered with status 403 or 404, \<open>reconnectConversation\<close> returns
  false, the stored cursor is cleared, and a new conversation is requested; when that
  request is accepted the service holds the new conversation id and no watermark, the
  window is not marked as reconnected and the store holds the new conversation. If the
  probe is answered with an \<open>ok\<close> status, \<open>reconnectConversation\<close> returns true and the
  service adopts the saved conversation id and watermark; nothing else is requested.
\<close>

theorem reconnect_rejected_or_adopted:
  assumes "truthy (or_else (secret inp) [])"
    and "loadConversationState (init_now inp) st = (Some saved, st)"
  shows
    "(probe_result inp = Response status statusText () \<and> (status = 403 \<or> status = 404) \<longrightarrow>
        fst (reconnectConversation (probe_result inp) (cs_conversationId saved)
               (cs_watermark saved) svc) = False
        \<and> fst (snd (snd (reconnect_step inp (svc, st)))) = Absent
        \<and> snd (snd (initializeChat inp st))
            = [GET (activities_url (or_else (endpoint inp)
                      ''https://directline.botframework.com/v3/directline'')
                    (cs_conversationId saved) (cs_watermark saved)),
               POST (or_else (endpoint inp)
                      ''https://directline.botframework.com/v3/directline'' @ ''/conversations'')]
        \<and> (start_result inp = Response status2 statusText2 cid2 \<and> ok status2 \<longrightarrow>
              chatService (fst (initializeChat inp st))
                = Some ((new_service (endpoint inp))
                          \<lparr>onStateChange := True, conversationId := Some cid2\<rparr>)
              \<and> \<not> isReconnected (fst (initializeChat inp st))
              \<and> fst (snd (initializeChat inp st))
                  = Saved \<lparr>cs_conversationId = cid2, cs_watermark = None,
                           savedAt = init_now inp\<rparr>))
     \<and> (probe_result inp = Response status statusText () \<and> ok status \<longrightarrow>
        reconnectConversation (probe_result inp) (cs_conversationId saved)
               (cs_watermark saved) svc
          = (True, svc\<lparr>conversationId := Some (cs_conversationId saved),
                       watermark := cs_watermark saved\<rparr>)
        \<and> chatService (fst (initializeChat inp st))
            = Some ((new_service (endpoint inp))
                      \<lparr>onStateChange := True, conversationId := Some (cs_conversationId saved),
                        watermark := cs_watermark saved\<rparr>)
        \<and> isReconnected (fst (initializeChat inp st))
        \<and> fst (snd (initializeChat inp st)) = st
        \<and> snd (snd (initializeChat inp st))
            = [GET (activities_url (or_else (endpoint inp)
                      ''https://directline.botframework.com/v3/directline'')
                    (cs_conversationId saved) (cs_watermark saved))])"
proof (intro conjI impI)
  assume p: "probe_result inp = Response status statusText () \<and> (status = 403 \<or> status = 404)"
  then have nok: "\<not> ok status" using not_ok_403_404 by blast
  from p nok show "fst (reconnectConversation (probe_result inp) (cs_conversationId saved)
               (cs_watermark saved) svc) = False"
    by (simp add: reconnectConversation_def)
  from p nok assms show "fst (snd (snd (reconnect_step inp (svc, st)))) = Absent"
    by (simp add: reconnect_step_def reconnectConversation_def clearConversationState_def)
  from p nok assms show "snd (snd (initializeChat inp st))
            = [GET (activities_url (or_else (endpoint inp)
                      ''https://directline.botframework.com/v3/directline'')
                    (cs_conversationId saved) (cs_watermark saved)),
               POST (or_else (endpoint inp)
                      ''https://directline.botframework.com/v3/directline'' @ ''/conversations'')]"
    by (cases "start_result inp")
       (simp_all add: initializeChat_def reconnect_step_def reconnectConversation_def
          startConversation_def new_service_def Let_def)
  assume s: "start_result inp = Response status2 statusText2 cid2 \<and> ok status2"
  from p nok s assms show "chatService (fst (initializeChat inp st))
                = Some ((new_service (endpoint inp))
                          \<lparr>onStateChange := True, conversationId := Some cid2\<rparr>)"
    by (simp add: initializeChat_def reconnect_step_def reconnectConversation_def
          startConversation_def new_service_def Let_def)
  from p nok s assms show "\<not> isReconnected (fst (initializeChat inp st))"
    by (simp add: initializeChat_def reconnect_step_def reconnectConversation_def
          startConversation_def new_service_def Let_def)
  from p nok s assms show "fst (snd (initializeChat inp st))
                  = Saved \<lparr>cs_conversationId = cid2, cs_watermark = None,
                           savedAt = init_now inp\<rparr>"
    by (simp add: initializeChat_def reconnect_step_def reconnectConversation_def
          startConversation_def new_service_def saveConversationState_def Let_def)
next
  assume p: "probe_result inp = Response status statusText () \<and> ok status"
  then show "reconnectConversation (probe_result inp) (cs_conversationId saved)
               (cs_watermark saved) svc
          = (True, svc\<lparr>conversationId := Some (cs_conversationId saved),
                       watermark := cs_watermark saved\<rparr>)"
    by (simp add: reconnectConversation_def)
  from p assms show "chatService (fst (initializeChat inp st))
            = Some ((new_service (endpoint inp))
                      \<lparr>onStateChange := True, conversationId := Some (cs_conversationId saved),
                        watermark := cs_watermark saved\<rparr>)"
    by (simp add: initializeChat_def reconnect_step_def reconnectConversation_def Let_def)
  from p assms show "isReconnected (fst (initializeChat inp st))"
    by (simp add: initializeChat_def reconnect_step_def reconnectConversation_def Let_def)
  from p assms show "fst (snd (initializeChat inp st)) = st"
    by (simp add: initializeChat_def reconnect_step_def reconnectConversation_def Let_def)
  from p assms show "snd (snd (initializeChat inp st))
            = [GET (activities_url (or_else (endpoint inp)
                      ''https://directline.botframework.com/v3/directline'')
                    (cs_conversationId saved) (cs_watermark saved))]"
    by (simp add: initializeChat_def reconnect_step_def reconnectConversation_def new_service_def Let_def)
qed

theorem reconnect_rejected_or_adopted_witness:
  "loadConversationState (init_now (resume_input 404)) (Saved saved_cursor)
     = (Some saved_cursor, Saved saved_cursor)
   \<and> fst (reconnectConversation (probe_result (resume_input 404)) ''conv1'' (Some ''5'')
          sample_service) = False
   \<and> fst (snd (snd (reconnect_step (resume_input 404) (sample_service, Saved saved_cursor))))
       = Absent
   \<and> snd (snd (initializeChat (resume_input 404) (Saved saved_cursor)))
       = [GET ''https://directline.botframework.com/v3/directline/conversations/conv1/activities?watermark=5'',
          POST ''https://directline.botframework.com/v3/directline/conversations'']
   \<and> chatService (fst (initializeChat (resume_input 404) (Saved saved_cursor)))
       = Some \<lparr>baseUrl = ''https://directline.botframework.com/v3/directline'',
                conversationId = Some ''conv2'', watermark = None, onStateChange = True\<rparr>
   \<and> fst (snd (initializeChat (resume_input 404) (Saved saved_cursor)))
       = Saved \<lparr>cs_conversationId = ''conv2'', cs_watermark = None, savedAt = 60000\<rparr>
   \<and> chatService (fst (initializeChat (resume_input 200) (Saved saved_cursor)))
       = Some \<lparr>baseUrl = ''https://directline.botframework.com/v3/directline'',
                conversationId = Some ''conv1'', watermark = Some ''5'', onStateChange = True\<rparr>
   \<and> isReconnected (fst (initializeChat (resume_input 200) (Saved saved_cursor)))
   \<and> fst (snd (initializeChat (resume_input 200) (Saved saved_cursor))) = Saved saved_cursor"
proof -
  have s: "truthy (or_else (secret (resume_input 404)) [])"
    "truthy (or_else (secret (resume_input 200)) [])"
    by (simp_all add: resume_input_def or_else_def truthy_def)
  have l: "loadConversationState (init_now (resume_input 404)) (Saved saved_cursor)
     = (Some saved_cursor, Saved saved_cursor)"
    "loadConversationState (init_now (resume_input 200)) (Saved saved_cursor)
     = (Some saved_cursor, Saved saved_cursor)"
    by (simp_all add: loadConversationState_def resume_input_def saved_cursor_def
        CONVERSATION_EXPIRY_MS_def)
  have p404: "probe_result (resume_input 404) = Response 404 ''status text'' ()
      \<and> ((404::nat) = 403 \<or> (404::nat) = 404)"
    by (simp add: resume_input_def)
  have st404: "start_result (resume_input 404) = Response 201 ''Created'' ''conv2'' \<and> ok 201"
    by (simp add: resume_input_def ok_def)
  have p200: "probe_result (resume_input 200) = Response 200 ''status text'' () \<and> ok 200"
    by (simp add: resume_input_def ok_def)
  have c: "cs_conversationId saved_cursor = ''conv1''" "cs_watermark saved_cursor = Some ''5''"
    "endpoint (resume_input 404) = None" "endpoint (resume_input 200) = None"
    "init_now (resume_input 404) = 60000"
    by (simp_all add: saved_cursor_def resume_input_def)
  have u: "activities_url ''https://directline.botframework.com/v3/directline'' ''conv1'' (Some ''5'')
    = ''https://directline.botframework.com/v3/directline/conversations/conv1/activities?watermark=5''"
    by (simp add: activities_url_def or_else_def truthy_def)
  note r = reconnect_rejected_or_adopted[OF s(1) l(1), of 404 "''status text''" sample_service
      201 "''Created''" "''conv2''", THEN conjunct1, THEN mp, OF p404]
  note a = reconnect_rejected_or_adopted[OF s(2) l(2), of 200 "''status text''" sample_service
      201 "''Created''" "''conv2''", THEN conjunct2, THEN mp, OF p200]
  from r st404 c u have r': "fst (reconnectConversation (probe_result (resume_input 404)) ''conv1'' (Some ''5'')
          sample_service) = False
   \<and> fst (snd (snd (reconnect_step (resume_input 404) (sample_service, Saved saved_cursor))))
       = Absent
   \<and> snd (snd (initializeChat (resume_input 404) (Saved saved_cursor)))
       = [GET ''https://directline.botframework.com/v3/directline/conversations/conv1/activities?watermark=5'',
          POST ''https://directline.botframework.com/v3/directline/conversations'']
   \<and> chatService (fst (initializeChat (resume_input 404) (Saved saved_cursor)))
       = Some \<lparr>baseUrl = ''https://directline.botframework.com/v3/directline'',
                conversationId = Some ''conv2'', watermark = None, onStateChange = True\<rparr>
   \<and> fst (snd (initializeChat (resume_input 404) (Saved saved_cursor)))
       = Saved \<lparr>cs_conversationId = ''conv2'', cs_watermark = None, savedAt = 60000\<rparr>"
    by (simp add: new_service_def or_else_def)
  from a c have a': "chatService (fst (initializeChat (resume_input 200) (Saved saved_cursor)))
       = Some \<lparr>baseUrl = ''https://directline.botframework.com/v3/directline'',
                conversationId = Some ''conv1'', watermark = Some ''5'', onStateChange = True\<rparr>
   \<and> isReconnected (fst (initializeChat (resume_input 200) (Saved saved_cursor)))
   \<and> fst (snd (initializeChat (resume_input 200) (Saved saved_cursor))) = Saved saved_cursor"
    by (simp add: new_service_def or_else_def)
  from l(1) r' a' show ?thesis by simp
qed

section \<open>The two sets of ids\<close>

lemma filterSeen_snd: "snd (filterSeen seen acts) = seen \<union> (\<lambda>a. or_else (act_id a) []) ` set acts"
  by (induction seen acts rule: filterSeen.induct) (auto simp: Let_def split: prod.splits)

lemma newMessagesFrom_seen: "seenMessageIds s \<subseteq> seenMessageIds (snd (newMessagesFrom p s r))"
proof (cases r)
  case (fields x svc st)
  then show ?thesis
    by (cases x) (auto simp: newMessagesFrom_def split_beta filterSeen_snd)
qed

lemma fetch_seen: "seenMessageIds s \<subseteq> seenMessageIds (snd (fetchNewMessages p s))"
  unfolding fetchNewMessages_def by (rule newMessagesFrom_seen)

lemma settled_seen: "seenMessageIds s \<subseteq> seenMessageIds (snd (settledNewMessages p s))"
  unfolding settledNewMessages_def by (rule newMessagesFrom_seen)

lemma poll_seen_mono: "seenMessageIds s \<subseteq> seenMessageIds (fst (pollMessages p s))"
  using fetch_seen by (simp add: pollMessages_frame)

lemma poll_settled_seen_mono: "seenMessageIds s \<subseteq> seenMessageIds (fst (poll_settled c p s))"
  using settled_seen by (simp add: poll_settled_frame)

lemma poll_spoken_mono: "spokenMessageIds s \<subseteq> spokenMessageIds (fst (pollMessages p s))"
proof -
  obtain svc st seen where fr: "snd (fetchNewMessages p s)
     = s\<lparr>chat_service := svc, conversation_store := st, seenMessageIds := seen\<rparr>"
    using fetch_frame by blast
  then show ?thesis
    using handleNewMessages_frame[of "isMuted s" "drivingMode s" "fetchNewMessages p s"]
    by (simp add: pollMessages_def)
qed

lemma poll_settled_spoken_mono:
  "spokenMessageIds s \<subseteq> spokenMessageIds (fst (poll_settled c p s))"
  by (simp add: poll_settled_frame)

lemma sendMessage_sets:
  "seenMessageIds (sendMessage env text s) = seenMessageIds s
   \<and> spokenMessageIds (sendMessage env text s) = spokenMessageIds s"
  by (simp add: sendMessage_def Let_def split: sum.splits)

lemma other_ops_sets:
  "op \<noteq> NewChat \<Longrightarrow> op_input op = None \<Longrightarrow>
     seenMessageIds (apply_op op s) = seenMessageIds s
     \<and> spokenMessageIds (apply_op op s) = spokenMessageIds s"
  by (cases op)
     (simp_all add: op_input_def poll_start_def walk_resume_frame onresult_def autoSendFire_def
        sendMessage_sets handleAudioPlay_def handleAudioPause_def handleAudioStop_def
        handleDrivingModeStart_def handleDrivingModeStop_def cancelResetFire_def
        micRestartFire_def forceStopMic_def
        split: option.splits)

lemma ops_seen_mono: "op \<noteq> NewChat \<Longrightarrow> seenMessageIds s \<subseteq> seenMessageIds (apply_op op s)"
proof (cases "op_input op")
  case None
  assume "op \<noteq> NewChat"
  with None other_ops_sets[of op s] show ?thesis by simp
next
  case (Some p)
  then show ?thesis
    by (cases op) (simp_all add: op_input_def poll_seen_mono poll_settled_seen_mono)
qed

lemma ops_spoken_mono: "spokenMessageIds s \<subseteq> spokenMessageIds (apply_op op s)"
proof (cases "op = NewChat")
  case True
  then show ?thesis by (simp add: handleNewChat_def)
next
  case n: False
  show ?thesis
  proof (cases "op_input op")
    case None
    with n other_ops_sets[of op s] show ?thesis by simp
  next
    case (Some p)
    then show ?thesis
      by (cases op) (simp_all add: op_input_def poll_spoken_mono poll_settled_spoken_mono)
  qed
qed

text \<open>
  C9, as stated, fails: after a poll cycle has handed two messages to speech, the
  new-conversation action empties \<open>seenMessageIds\<close> and leaves both ids in
  \<open>spokenMessageIds\<close>.
\<close>

theorem new_chat_clears_seen_only_counterexample:
  "spokenMessageIds (apply_op NewChat (apply_op (Poll two_turns) initial_state))
     = {''c|1'', ''c|2''}
   \<and> seenMessageIds (apply_op NewChat (apply_op (Poll two_turns) initial_state)) = {}"
  by (simp add: sample_eval poll_eval handleNewChat_def clearConversationState_def
        insert_commute)

text \<open>
  C9, amended: the new-conversation action empties \<open>seenMessageIds\<close> and leaves
  \<open>spokenMessageIds\<close> as it is; no other operation of a session removes an id from
  \<open>seenMessageIds\<close>, and no operation at all removes an id from \<open>spokenMessageIds\<close>.
\<close>

theorem dedup_sets_cleared_only_as_coded:
  "seenMessageIds (handleNewChat s) = {}
   \<and> spokenMessageIds (handleNewChat s) = spokenMessageIds s
   \<and> (op \<noteq> NewChat \<longrightarrow> seenMessageIds s \<subseteq> seenMessageIds (apply_op op s))
   \<and> spokenMessageIds s \<subseteq> spokenMessageIds (apply_op op s)"
proof (intro conjI impI)
  show "seenMessageIds (handleNewChat s) = {}"
    by (simp add: handleNewChat_def)
  show "spokenMessageIds (handleNewChat s) = spokenMessageIds s"
    by (simp add: handleNewChat_def)
  show "seenMessageIds s \<subseteq> seenMessageIds (apply_op op s)" if "op \<noteq> NewChat"
    using that by (rule ops_seen_mono)
  show "spokenMessageIds s \<subseteq> spokenMessageIds (apply_op op s)"
    by (rule ops_spoken_mono)
qed

theorem dedup_sets_cleared_only_as_coded_witness:
  "Poll two_turns \<noteq> NewChat
   \<and> ''c|0'' \<in> seenMessageIds (apply_op (Poll two_turns) greeted_state)
   \<and> ''c|0'' \<in> spokenMessageIds (apply_op (Poll two_turns) greeted_state)
   \<and> seenMessageIds (handleNewChat greeted_state) = {}
   \<and> spokenMessageIds (handleNewChat greeted_state) = {''c|0''}"
proof -
  have n: "Poll two_turns \<noteq> NewChat" by simp
  have g: "seenMessageIds greeted_state = {''c|0''}" "spokenMessageIds greeted_state = {''c|0''}"
    by (simp_all add: greeted_state_def)
  from dedup_sets_cleared_only_as_coded[of greeted_state "Poll two_turns"] n g
  show ?thesis by simp
qed

section \<open>Hands-free recognition\<close>

lemma nonnoise_truthy: "\<not> isLikelyNoise r \<Longrightarrow> truthy (trim (transcript r))"
  by (auto simp: isLikelyNoise_def trimmedTranscript_def toLowerCase_def truthy_def)

lemma sendMessage_busy: "send_isSending env \<Longrightarrow> sendMessage env text s = s"
  by (simp add: sendMessage_def)

lemma sendMessage_free:
  assumes "\<not> send_isSending env" and "truthy (trim text)"
    and "service_sendMessage (send_response env) (chat_service s) = Inr ()"
  shows "posted (sendMessage env text s) = posted s @ [text]
     \<and> messages (sendMessage env text s) = messages s @
          [\<lparr>msg_id = send_rnd env, msg_text = text, isUser = True, timestamp = send_now env,
            signInUrl = None, isSignInCard = False, adaptiveCard = None, speakText = None\<rparr>]
     \<and> autoSendTimer (sendMessage env text s) = autoSendTimer s"
  using assms by (simp add: sendMessage_def Let_def)

text \<open>
  Noise and debounce. In hands-free mode, a final result is noise exactly when its trimmed
  lower-cased text is in the stoplist, or is shorter than 3 characters, or its reported
  confidence is below 0.5; a noise result only clears the live transcript, so it arms no
  timer and sends nothing. A final result that is not noise arms the debounce timer for
  2000 ms later with its transcript and sends nothing by itself, nor does the timer
  before that time; a later final result that is not noise replaces the pending timer.
  When the timer runs out, the transcript is handed to the \<open>sendMessage\<close> that the handler
  closed over: if that \<open>sendMessage\<close> does not see \<open>isSending\<close> set and the bot accepts the
  post, the transcript is posted and appended to the transcript of the chat as a user
  message; if it sees \<open>isSending\<close> set, nothing is posted or appended and the input is
  cleared.
\<close>

lemma noise_and_debounce:
  assumes "drivingMode s" and "isFinal r"
  shows
   "isLikelyNoise r
      = (toLowerCase (trim (transcript r)) \<in> set noiseWords
         \<or> length (toLowerCase (trim (transcript r))) < 3
         \<or> (\<exists>c. confidence r = Some c \<and> c < 0.5))
    \<and> (isLikelyNoise r \<longrightarrow> onresult now r s = s\<lparr>transcribedText := []\<rparr>)
    \<and> (\<not> isLikelyNoise r \<longrightarrow>
         autoSendTimer (onresult now r s) = Some (transcript r, now + 2000)
         \<and> posted (onresult now r s) = posted s
         \<and> messages (onresult now r s) = messages s
         \<and> (t < now + 2000 \<longrightarrow> autoSendFire t env (onresult now r s) = onresult now r s)
         \<and> (now + 2000 \<le> t \<and> \<not> send_isSending env
              \<and> service_sendMessage (send_response env) (chat_service s) = Inr ()
            \<longrightarrow> posted (autoSendFire t env (onresult now r s)) = posted s @ [transcript r]
                \<and> messages (autoSendFire t env (onresult now r s)) = messages s @
                     [\<lparr>msg_id = send_rnd env, msg_text = transcript r, isUser = True,
                       timestamp = send_now env, signInUrl = None, isSignInCard = False,
                       adaptiveCard = None, speakText = None\<rparr>]
                \<and> autoSendTimer (autoSendFire t env (onresult now r s)) = None)
         \<and> (now + 2000 \<le> t \<and> send_isSending env
            \<longrightarrow> posted (autoSendFire t env (onresult now r s)) = posted s
                \<and> messages (autoSendFire t env (onresult now r s)) = messages s
                \<and> inputText (autoSendFire t env (onresult now r s)) = []
                \<and> autoSendTimer (autoSendFire t env (onresult now r s)) = None)
         \<and> (isFinal r2 \<and> \<not> isLikelyNoise r2
            \<longrightarrow> autoSendTimer (onresult now2 r2 (onresult now r s))
                  = Some (transcript r2, now2 + 2000)))"
proof (intro conjI impI)
  show "isLikelyNoise r
      = (toLowerCase (trim (transcript r)) \<in> set noiseWords
         \<or> length (toLowerCase (trim (transcript r))) < 3
         \<or> (\<exists>c. confidence r = Some c \<and> c < 0.5))"
    by (cases "confidence r") (simp_all add: isLikelyNoise_def trimmedTranscript_def)
  show "isLikelyNoise r \<Longrightarrow> onresult now r s = s\<lparr>transcribedText := []\<rparr>"
    using assms by (simp add: onresult_def)
next
  assume n: "\<not> isLikelyNoise r"
  let ?s1 = "onresult now r s"
  have o: "?s1 = s\<lparr>inputText := transcript r, lastUserInput := transcript r,
      isListening := False, transcribedText := [],
      autoSendTimer := Some (transcript r, now + 2000)\<rparr>"
    using assms n by (simp add: onresult_def)
  show "autoSendTimer ?s1 = Some (transcript r, now + 2000)" by (simp add: o)
  show "posted ?s1 = posted s" by (simp add: o)
  show "messages ?s1 = messages s" by (simp add: o)
  show "autoSendFire t env ?s1 = ?s1" if "t < now + 2000"
    using that by (simp add: o autoSendFire_def)
  have tr: "truthy (trim (transcript r))" using n by (rule nonnoise_truthy)
  {
    assume f: "now + 2000 \<le> t \<and> \<not> send_isSending env
              \<and> service_sendMessage (send_response env) (chat_service s) = Inr ()"
    let ?s2 = "?s1\<lparr>autoSendTimer := None, isListening := False, isSending := True\<rparr>"
    have fire: "autoSendFire t env ?s1 = (sendMessage env (transcript r) ?s2)
        \<lparr>isSending := False, inputText := []\<rparr>"
      using f by (simp add: o autoSendFire_def)
    have svc: "service_sendMessage (send_response env) (chat_service ?s2) = Inr ()"
      using f by (simp add: o)
    from f have nb: "\<not> send_isSending env" by simp
    note sm = sendMessage_free[OF nb tr svc]
    show "posted (autoSendFire t env ?s1) = posted s @ [transcript r]"
      using sm by (simp add: fire) (simp add: o)
    show "messages (autoSendFire t env ?s1) = messages s @
                     [\<lparr>msg_id = send_rnd env, msg_text = transcript r, isUser = True,
                       timestamp = send_now env, signInUrl = None, isSignInCard = False,
                       adaptiveCard = None, speakText = None\<rparr>]"
      using sm by (simp add: fire) (simp add: o)
    show "autoSendTimer (autoSendFire t env ?s1) = None"
      using sm by (simp add: fire)
  }
  {
    assume f: "now + 2000 \<le> t \<and> send_isSending env"
    then have fire: "autoSendFire t env ?s1
        = ?s1\<lparr>autoSendTimer := None, isListening := False, isSending := True,
              isSending := False, inputText := []\<rparr>"
      by (simp add: o autoSendFire_def sendMessage_busy)
    show "posted (autoSendFire t env ?s1) = posted s" by (simp add: fire) (simp add: o)
    show "messages (autoSendFire t env ?s1) = messages s" by (simp add: fire) (simp add: o)
    show "inputText (autoSendFire t env ?s1) = []" by (simp add: fire)
    show "autoSendTimer (autoSendFire t env ?s1) = None" by (simp add: fire)
  }
  show "autoSendTimer (onresult now2 r2 ?s1) = Some (transcript r2, now2 + 2000)"
    if "isFinal r2 \<and> \<not> isLikelyNoise r2"
    using that assms by (simp add: o onresult_def)
qed

lemma noise_and_debounce_sample:
  "drivingMode driving_state \<and> isFinal um_result \<and> isFinal lights_result
   \<and> isLikelyNoise um_result
   \<and> onresult 0 um_result driving_state = driving_state\<lparr>transcribedText := []\<rparr>
   \<and> \<not> isLikelyNoise lights_result
   \<and> autoSendTimer (onresult 0 lights_result driving_state) = Some (''turn on the lights'', 2000)
   \<and> autoSendFire 1999 free_env (onresult 0 lights_result driving_state)
       = onresult 0 lights_result driving_state
   \<and> posted (autoSendFire 2000 free_env (onresult 0 lights_result driving_state))
       = [''turn on the lights'']
   \<and> autoSendTimer (onresult 1500 lights_result (onresult 0 lights_result driving_state))
       = Some (''turn on the lights'', 3500)"
proof -
  have d: "drivingMode driving_state" "isFinal um_result" "isFinal lights_result"
    by (simp_all add: driving_state_def initial_state_def um_result_def lights_result_def)
  have n1: "isLikelyNoise um_result" by code_simp
  have n2: "\<not> isLikelyNoise lights_result" by code_simp
  have e: "\<not> send_isSending free_env"
    "service_sendMessage (send_response free_env) (chat_service driving_state) = Inr ()"
    "posted driving_state = []" "transcript lights_result = ''turn on the lights''"
    by (simp_all add: free_env_def service_sendMessage_def driving_state_def initial_state_def
        sample_service_def ok_def lights_result_def started_def or_else_def truthy_def)
  note a = noise_and_debounce[OF d(1) d(2), of 0, THEN conjunct2, THEN conjunct1,
      THEN mp, OF n1]
  note b = noise_and_debounce[OF d(1) d(3), of 0 1999 free_env lights_result 1500,
      THEN conjunct2, THEN conjunct2, THEN mp, OF n2]
  note c = noise_and_debounce[OF d(1) d(3), of 0 2000 free_env lights_result 1500,
      THEN conjunct2, THEN conjunct2, THEN mp, OF n2]
  from b d(3) n2 e have r1: "autoSendTimer (onresult 0 lights_result driving_state) = Some (''turn on the lights'', 2000)"
    and r2: "autoSendFire 1999 free_env (onresult 0 lights_result driving_state)
       = onresult 0 lights_result driving_state"
    and r3: "autoSendTimer (onresult 1500 lights_result (onresult 0 lights_result driving_state))
       = Some (''turn on the lights'', 3500)"
    by simp_all
  from c e have r4: "posted (autoSendFire 2000 free_env (onresult 0 lights_result driving_state))
       = [''turn on the lights'']"
    by simp
  from d n1 n2 a r1 r2 r3 r4 show ?thesis by simp
qed

text \<open>
  C7: the code departs from the claim. The handler \<open>onresult\<close> is installed by an effect
  that depends on \<open>drivingMode\<close> alone, so the \<open>sendMessage\<close> that its timer calls is the
  one of the render in which hands-free mode was last switched, with the \<open>isSending\<close> of
  that render. When that was true (a post was pending at the switch) and no send is in
  progress any more, a final result that is not noise still arms the timer, and nothing
  supersedes it; but the timer, once it has run out, calls a \<open>sendMessage\<close> that returns at
  its guard: nothing is posted, no message is added to the transcript, and the input is
  cleared. A \<open>sendMessage\<close> of the current render, as the send button calls it in the same
  state, posts the same text.
\<close>

theorem stale_isSending_drops_auto_send:
  assumes "drivingMode s" and "isFinal r" and "\<not> isLikelyNoise r"
    and "\<not> isSending s" and "send_isSending env" and "now + 2000 \<le> t"
    and "service_sendMessage (send_response env) (chat_service s) = Inr ()"
  shows "autoSendTimer (onresult now r s) = Some (transcript r, now + 2000)
     \<and> \<not> isSending (onresult now r s)
     \<and> posted (autoSendFire t env (onresult now r s)) = posted s
     \<and> messages (autoSendFire t env (onresult now r s)) = messages s
     \<and> inputText (autoSendFire t env (onresult now r s)) = []
     \<and> autoSendTimer (autoSendFire t env (onresult now r s)) = None
     \<and> posted (sendMessage (env\<lparr>send_isSending := isSending (onresult now r s)\<rparr>)
           (transcript r) (onresult now r s)) = posted s @ [transcript r]"
proof -
  let ?s1 = "onresult now r s"
  have o: "?s1 = s\<lparr>inputText := transcript r, lastUserInput := transcript r,
      isListening := False, transcribedText := [],
      autoSendTimer := Some (transcript r, now + 2000)\<rparr>"
    using assms(1-3) by (simp add: onresult_def)
  have fire: "autoSendFire t env ?s1
      = ?s1\<lparr>autoSendTimer := None, isListening := False, isSending := True,
            isSending := False, inputText := []\<rparr>"
    using assms(5,6) by (simp add: o autoSendFire_def sendMessage_busy)
  have tr: "truthy (trim (transcript r))" using assms(3) by (rule nonnoise_truthy)
  let ?env = "env\<lparr>send_isSending := isSending ?s1\<rparr>"
  have nb: "\<not> send_isSending ?env" using assms(4) by (simp add: o)
  have svc: "service_sendMessage (send_response ?env) (chat_service ?s1) = Inr ()"
    using assms(7) by (simp add: o)
  note sm = sendMessage_free[OF nb tr svc]
  have "posted (sendMessage ?env (transcript r) ?s1) = posted s @ [transcript r]"
    using sm by (simp add: o)
  moreover have "autoSendTimer ?s1 = Some (transcript r, now + 2000)" "\<not> isSending ?s1"
    using assms(4) by (simp_all add: o)
  moreover have "posted (autoSendFire t env ?s1) = posted s"
    "messages (autoSendFire t env ?s1) = messages s"
    "inputText (autoSendFire t env ?s1) = []"
    "autoSendTimer (autoSendFire t env ?s1) = None"
    by (simp_all add: fire) (simp_all add: o)
  ultimately show ?thesis by simp
qed

theorem stale_isSending_drops_auto_send_witness:
  "drivingMode driving_state \<and> isFinal lights_result \<and> \<not> isLikelyNoise lights_result
   \<and> \<not> isSending driving_state \<and> send_isSending busy_env
   \<and> service_sendMessage (send_response busy_env) (chat_service driving_state) = Inr ()
   \<and> autoSendTimer (onresult 0 lights_result driving_state) = Some (''turn on the lights'', 2000)
   \<and> posted (autoSendFire 2000 busy_env (onresult 0 lights_result driving_state)) = []
   \<and> messages (autoSendFire 2000 busy_env (onresult 0 lights_result driving_state)) = []
   \<and> inputText (autoSendFire 2000 busy_env (onresult 0 lights_result driving_state)) = []
   \<and> posted (sendMessage free_env ''turn on the lights'' (onresult 0 lights_result driving_state))
       = [''turn on the lights'']"
proof -
  have n: "\<not> isLikelyNoise lights_result" by code_simp
  have d: "drivingMode driving_state" "isFinal lights_result" "\<not> isSending driving_state"
    "send_isSending busy_env"
    "service_sendMessage (send_response busy_env) (chat_service driving_state) = Inr ()"
    by (simp_all add: driving_state_def initial_state_def lights_result_def busy_env_def
        free_env_def service_sendMessage_def sample_service_def ok_def started_def or_else_def
        truthy_def)
  have e: "posted driving_state = []" "messages driving_state = []"
    "transcript lights_result = ''turn on the lights''"
    by (simp_all add: driving_state_def initial_state_def lights_result_def)
  have f: "busy_env\<lparr>send_isSending := isSending (onresult 0 lights_result driving_state)\<rparr>
      = free_env"
    using stale_isSending_drops_auto_send[OF d(1) d(2) n d(3) d(4) _ d(5), of 0 2000]
    by (simp add: busy_env_def free_env_def)
  from stale_isSending_drops_auto_send[OF d(1) d(2) n d(3) d(4) _ d(5), of 0 2000] n d e
  show ?thesis by (simp add: f)
qed

section \<open>Deduplication of turns\<close>

lemma or_else_key: "or_else (act_id a) r = (if truthy (turn_key a) then turn_key a else r)"
  by (cases "act_id a") (simp_all add: or_else_def turn_key_def truthy_def)

lemma mapActivity_id: "msg_id (mapActivity r now a) = or_else (act_id a) r"
  by (simp add: mapActivity_def Let_def split: option.splits list.splits)

lemma mapActivity_rnd:
  assumes "truthy (turn_key a)"
  shows "mapActivity r now a = mapActivity r' now a"
proof -
  have "or_else (act_id a) r = or_else (act_id a) r'"
    using assms by (simp add: or_else_key)
  then show ?thesis
    by (simp only: mapActivity_def)
qed

lemma hasContent_map: "hasContent (mapActivity r now a) = content_bearing a"
  by (auto simp: content_bearing_def mapActivity_def hasContent_def Let_def
      split: option.splits list.splits)

lemma filterSeen_fst:
  "fst (filterSeen seen (a # as)) =
     (if turn_key a \<in> seen then fst (filterSeen seen as)
      else a # fst (filterSeen (insert (turn_key a) seen) as))"
  by (simp add: turn_key_def Let_def split: prod.splits)

lemma filterSeen_kept_key:
  "filter (\<lambda>a. turn_key a = i) (fst (filterSeen seen acts))
     = (if i \<in> seen then [] else take 1 (filter (\<lambda>a. turn_key a = i) acts))"
proof (induction acts arbitrary: seen)
  case Nil
  then show ?case by simp
next
  case (Cons a as)
  show ?case
    by (simp only: filterSeen_fst) (auto simp: Cons.IH)
qed

lemma filterSeen_seen: "snd (filterSeen seen acts) = seen \<union> turn_key ` set acts"
  using filterSeen_snd[of seen acts] by (simp add: turn_key_def[abs_def])

lemma mapActivities_id_filter:
  assumes "i \<noteq> []" and "\<forall>n. rnd n \<noteq> i"
  shows "filter (\<lambda>m. msg_id m = i) (filter hasContent (mapActivities rnd k now as))
     = map (mapActivity [] now) (filter content_bearing (filter (\<lambda>a. turn_key a = i) as))"
proof (induction as arbitrary: k)
  case Nil
  then show ?case by simp
next
  case (Cons a as)
  show ?case
  proof (cases "turn_key a = i")
    case True
    with assms have t: "truthy (turn_key a)" by (simp add: truthy_def)
    then have "mapActivity (rnd k) now a = mapActivity [] now a" by (rule mapActivity_rnd)
    with True t show ?thesis
      by (simp add: Cons.IH hasContent_map mapActivity_id or_else_key del: filter_filter)
  next
    case False
    with assms have "msg_id (mapActivity (rnd k) now a) \<noteq> i"
      by (simp add: mapActivity_id or_else_key)
    with False show ?thesis
      by (simp add: Cons.IH del: filter_filter)
  qed
qed

lemma getMessages_settled_activities:
  "fst (getMessages_settled nowMs (poll_response p) ss)
     = (if poll_fails p then Inl (poll_error p) else Inr (poll_activities p))"
  by (cases "poll_response p")
     (simp_all add: getMessages_settled_def poll_fails_def poll_error_def poll_activities_def
        split_beta)

lemma settled_kept_eq:
  "settled_kept p s = fst (filterSeen (seenMessageIds s) (poll_activities p))"
proof (cases "poll_fails p")
  case True
  then have "poll_activities p = []"
    by (cases "poll_response p") (simp_all add: poll_fails_def poll_activities_def)
  with True show ?thesis
    using getMessages_settled_activities[of "poll_nowMs p" p "(chat_service s, conversation_store s)"]
    by (cases "getMessages_settled (poll_nowMs p) (poll_response p)
                 (chat_service s, conversation_store s)")
       (simp add: settled_kept_def)
next
  case False
  then show ?thesis
    using getMessages_settled_activities[of "poll_nowMs p" p "(chat_service s, conversation_store s)"]
    by (cases "getMessages_settled (poll_nowMs p) (poll_response p)
                 (chat_service s, conversation_store s)")
       (simp add: settled_kept_def)
qed

lemma settled_seen_eq:
  "seenMessageIds (snd (settledNewMessages p s))
     = seenMessageIds s \<union> turn_key ` set (poll_activities p)"
proof (cases "poll_fails p")
  case True
  then have "poll_activities p = []"
    by (cases "poll_response p") (simp_all add: poll_fails_def poll_activities_def)
  with True show ?thesis
    using getMessages_settled_activities[of "poll_nowMs p" p "(chat_service s, conversation_store s)"]
    by (cases "getMessages_settled (poll_nowMs p) (poll_response p)
                 (chat_service s, conversation_store s)")
       (simp add: settledNewMessages_def newMessagesFrom_def)
next
  case False
  then show ?thesis
    using getMessages_settled_activities[of "poll_nowMs p" p "(chat_service s, conversation_store s)"]
    by (cases "getMessages_settled (poll_nowMs p) (poll_response p)
                 (chat_service s, conversation_store s)")
       (simp add: settledNewMessages_def newMessagesFrom_def split_beta filterSeen_seen)
qed

lemma settled_new_kept:
  "(case fst (settledNewMessages p s) of Inl e \<Rightarrow> [] | Inr ms \<Rightarrow> ms)
     = filter hasContent (mapActivities (poll_rnd p) 0 (poll_now p) (settled_kept p s))"
  by (cases "getMessages_settled (poll_nowMs p) (poll_response p)
               (chat_service s, conversation_store s)")
     (auto simp: settledNewMessages_def newMessagesFrom_def settled_kept_def split_beta
        split: sum.splits)

lemma poll_kept_started: "started (chat_service s) \<Longrightarrow> poll_kept p s = settled_kept p s"
  by (simp add: poll_kept_def settled_kept_def getMessages_started)

lemma poll_kept_not_started: "\<not> started (chat_service s) \<Longrightarrow> poll_kept p s = []"
  by (simp add: poll_kept_def getMessages_def)

lemma settled_cycle_shape:
  "seenMessageIds (fst (poll_settled c p s))
     = seenMessageIds s \<union> turn_key ` set (poll_activities p)"
  by (simp add: poll_settled_frame settled_seen_eq)

lemma poll_cycle_shape:
  "\<exists>acts. poll_kept p s = fst (filterSeen (seenMessageIds s) acts)
      \<and> seenMessageIds (fst (pollMessages p s)) = seenMessageIds s \<union> turn_key ` set acts
      \<and> (started (chat_service s) \<longrightarrow> acts = poll_activities p)"
proof (cases "started (chat_service s)")
  case True
  from pollMessages_started[OF True, of p "[]"] True show ?thesis
    by (intro exI[of _ "poll_activities p"])
       (simp add: poll_kept_started settled_kept_eq settled_cycle_shape)
next
  case False
  then show ?thesis
    by (intro exI[of _ "[]"]) (simp add: poll_kept_not_started pollMessages_not_started)
qed

lemma newMessagesOf_kept:
  "newMessagesOf p s
     = filter hasContent (mapActivities (poll_rnd p) 0 (poll_now p) (poll_kept p s))"
  by (cases "getMessages (poll_nowMs p) (poll_response p) (chat_service s, conversation_store s)")
     (auto simp: newMessagesOf_def fetchNewMessages_def newMessagesFrom_def poll_kept_def
        split_beta split: sum.splits)

lemma poll_new_with_id:
  assumes "i \<noteq> []" and "\<forall>n. poll_rnd p n \<noteq> i"
  shows "filter (\<lambda>m. msg_id m = i) (messages (fst (pollMessages p s)))
     = filter (\<lambda>m. msg_id m = i) (messages s)
       @ map (mapActivity [] (poll_now p))
           (filter content_bearing (filter (\<lambda>a. turn_key a = i) (poll_kept p s)))"
  using mapActivities_id_filter[OF assms, of 0 "poll_now p" "poll_kept p s"]
  by (simp add: pollMessages_frame newMessagesOf_kept del: filter_filter)

lemma poll_skips_seen:
  assumes "i \<noteq> []" and "\<forall>n. poll_rnd p n \<noteq> i" and "i \<in> seenMessageIds s"
  shows "filter (\<lambda>m. msg_id m = i) (messages (fst (pollMessages p s)))
           = filter (\<lambda>m. msg_id m = i) (messages s)
       \<and> i \<in> seenMessageIds (fst (pollMessages p s))"
proof -
  obtain acts where a: "poll_kept p s = fst (filterSeen (seenMessageIds s) acts)"
    and b: "seenMessageIds (fst (pollMessages p s)) = seenMessageIds s \<union> turn_key ` set acts"
    using poll_cycle_shape by blast
  from a assms(3) have "filter (\<lambda>a. turn_key a = i) (poll_kept p s) = []"
    by (simp add: filterSeen_kept_key)
  with poll_new_with_id[OF assms(1,2), of s] b assms(3) show ?thesis by simp
qed

lemma run_polls_skips_seen:
  assumes "i \<noteq> []" and "\<forall>p\<in>set ps. \<forall>n. poll_rnd p n \<noteq> i" and "i \<in> seenMessageIds s"
  shows "filter (\<lambda>m. msg_id m = i) (messages (run_polls ps s))
           = filter (\<lambda>m. msg_id m = i) (messages s)"
  using assms(2,3)
proof (induction ps arbitrary: s)
  case Nil
  then show ?case by (simp add: run_polls_def)
next
  case (Cons p ps)
  from Cons.prems have r: "\<forall>n. poll_rnd p n \<noteq> i" by simp
  note st = poll_skips_seen[OF assms(1) r Cons.prems(2)]
  from Cons.prems have "\<forall>p\<in>set ps. \<forall>n. poll_rnd p n \<noteq> i" by simp
  from Cons.IH[OF this conjunct2[OF st]] st show ?case
    by (simp add: run_polls_Cons)
qed

lemma poll_first_sight:
  assumes "i \<noteq> []" and "\<forall>n. poll_rnd p n \<noteq> i" and "i \<notin> seenMessageIds s"
    and "filter (\<lambda>m. msg_id m = i) (messages s) = []"
  shows "length (filter (\<lambda>m. msg_id m = i) (messages (fst (pollMessages p s)))) \<le> 1
       \<and> (i \<notin> seenMessageIds (fst (pollMessages p s))
            \<longrightarrow> filter (\<lambda>m. msg_id m = i) (messages (fst (pollMessages p s))) = [])"
proof -
  obtain acts where a: "poll_kept p s = fst (filterSeen (seenMessageIds s) acts)"
    and b: "seenMessageIds (fst (pollMessages p s)) = seenMessageIds s \<union> turn_key ` set acts"
    using poll_cycle_shape by blast
  from a assms(3) have k: "filter (\<lambda>a. turn_key a = i) (poll_kept p s)
      = take 1 (filter (\<lambda>a. turn_key a = i) acts)"
    by (simp add: filterSeen_kept_key)
  have n: "i \<notin> seenMessageIds (fst (pollMessages p s))
      \<Longrightarrow> filter (\<lambda>a. turn_key a = i) acts = []"
    using b by (auto simp: filter_empty_conv)
  have "length (filter content_bearing (take 1 (filter (\<lambda>a. turn_key a = i) acts))) \<le> 1"
    by (rule order_trans[OF length_filter_le]) simp
  with poll_new_with_id[OF assms(1,2), of s] assms(4) k n show ?thesis
    by simp
qed

lemma run_polls_at_most_one:
  assumes "i \<noteq> []" and "\<forall>p\<in>set ps. \<forall>n. poll_rnd p n \<noteq> i" and "i \<notin> seenMessageIds s"
    and "filter (\<lambda>m. msg_id m = i) (messages s) = []"
  shows "length (filter (\<lambda>m. msg_id m = i) (messages (run_polls ps s))) \<le> 1"
  using assms(2-4)
proof (induction ps arbitrary: s)
  case Nil
  then show ?case by (simp add: run_polls_def)
next
  case (Cons p ps)
  let ?s1 = "fst (pollMessages p s)"
  from Cons.prems have r: "\<forall>n. poll_rnd p n \<noteq> i" and rs: "\<forall>p\<in>set ps. \<forall>n. poll_rnd p n \<noteq> i"
    by simp_all
  note st = poll_first_sight[OF assms(1) r Cons.prems(2,3)]
  show ?case
  proof (cases "i \<in> seenMessageIds ?s1")
    case True
    from run_polls_skips_seen[OF assms(1) rs True] st show ?thesis
      by (simp add: run_polls_Cons)
  next
    case False
    with st have "filter (\<lambda>m. msg_id m = i) (messages ?s1) = []" by simp
    from Cons.IH[OF rs False this] show ?thesis
      by (simp add: run_polls_Cons)
  qed
qed

lemma poll_keeps_started:
  "started (chat_service s) \<Longrightarrow> started (chat_service (fst (pollMessages p s)))"
  by (simp add: poll_service started_def)

lemma poll_delivers:
  assumes "i \<noteq> []" and "\<forall>n. poll_rnd p n \<noteq> i" and "i \<notin> seenMessageIds s"
    and "filter (\<lambda>m. msg_id m = i) (messages s) = []"
    and "started (chat_service s)"
    and "\<exists>a\<in>set (poll_activities p). turn_key a = i"
    and "\<forall>a\<in>set (poll_activities p). turn_key a = i \<longrightarrow> content_bearing a"
  shows "length (filter (\<lambda>m. msg_id m = i) (messages (fst (pollMessages p s)))) = 1
       \<and> i \<in> seenMessageIds (fst (pollMessages p s))"
proof -
  obtain acts where a: "poll_kept p s = fst (filterSeen (seenMessageIds s) acts)"
    and b: "seenMessageIds (fst (pollMessages p s)) = seenMessageIds s \<union> turn_key ` set acts"
    and c: "started (chat_service s) \<longrightarrow> acts = poll_activities p"
    using poll_cycle_shape by blast
  from c assms(5) have acts: "acts = poll_activities p" by simp
  let ?f = "filter (\<lambda>a. turn_key a = i) acts"
  from assms(6) acts have ne: "?f \<noteq> []" by (auto simp: filter_empty_conv)
  then obtain x xs where f: "?f = x # xs" by (cases ?f) auto
  then have "x \<in> set ?f" by simp
  then have "x \<in> set acts" and "turn_key x = i" by auto
  with assms(7) acts have cb: "content_bearing x" by simp
  from a assms(3) f have "filter (\<lambda>a. turn_key a = i) (poll_kept p s) = [x]"
    by (simp add: filterSeen_kept_key)
  with poll_new_with_id[OF assms(1,2), of s] assms(4) cb
  have "length (filter (\<lambda>m. msg_id m = i) (messages (fst (pollMessages p s)))) = 1"
    by simp
  moreover from b assms(6) acts have "i \<in> seenMessageIds (fst (pollMessages p s))" by auto
  ultimately show ?thesis by simp
qed

lemma poll_not_delivers:
  assumes "i \<noteq> []" and "\<forall>n. poll_rnd p n \<noteq> i" and "i \<notin> seenMessageIds s"
    and "filter (\<lambda>m. msg_id m = i) (messages s) = []"
    and "started (chat_service s)"
    and "\<not> (\<exists>a\<in>set (poll_activities p). turn_key a = i)"
  shows "filter (\<lambda>m. msg_id m = i) (messages (fst (pollMessages p s))) = []
       \<and> i \<notin> seenMessageIds (fst (pollMessages p s))"
proof -
  obtain acts where b: "seenMessageIds (fst (pollMessages p s)) = seenMessageIds s \<union> turn_key ` set acts"
    and c: "started (chat_service s) \<longrightarrow> acts = poll_activities p"
    using poll_cycle_shape by blast
  from c assms(5) have "acts = poll_activities p" by simp
  with b assms(3,6) have "i \<notin> seenMessageIds (fst (pollMessages p s))" by auto
  with poll_first_sight[OF assms(1-4)] show ?thesis by simp
qed

lemma run_polls_exactly_one:
  assumes "i \<noteq> []" and "\<forall>p\<in>set ps. \<forall>n. poll_rnd p n \<noteq> i" and "i \<notin> seenMessageIds s"
    and "filter (\<lambda>m. msg_id m = i) (messages s) = []"
    and "started (chat_service s)"
    and "\<exists>p\<in>set ps. \<exists>a\<in>set (poll_activities p). turn_key a = i"
    and "\<forall>p\<in>set ps. \<forall>a\<in>set (poll_activities p). turn_key a = i \<longrightarrow> content_bearing a"
  shows "length (filter (\<lambda>m. msg_id m = i) (messages (run_polls ps s))) = 1"
  using assms(2-7)
proof (induction ps arbitrary: s)
  case Nil
  then show ?case by simp
next
  case (Cons p ps)
  let ?s1 = "fst (pollMessages p s)"
  from Cons.prems have r: "\<forall>n. poll_rnd p n \<noteq> i" and rs: "\<forall>p\<in>set ps. \<forall>n. poll_rnd p n \<noteq> i"
    and cb: "\<forall>a\<in>set (poll_activities p). turn_key a = i \<longrightarrow> content_bearing a"
    and cbs: "\<forall>p\<in>set ps. \<forall>a\<in>set (poll_activities p). turn_key a = i \<longrightarrow> content_bearing a"
    by simp_all
  show ?case
  proof (cases "\<exists>a\<in>set (poll_activities p). turn_key a = i")
    case True
    note d = poll_delivers[OF assms(1) r Cons.prems(2,3,4) True cb]
    from run_polls_skips_seen[OF assms(1) rs conjunct2[OF d]] d show ?thesis
      by (simp add: run_polls_Cons)
  next
    case False
    note d = poll_not_delivers[OF assms(1) r Cons.prems(2,3,4) False]
    from False Cons.prems(5) have ex: "\<exists>p\<in>set ps. \<exists>a\<in>set (poll_activities p). turn_key a = i"
      by simp
    have cv: "started (chat_service ?s1)"
      using Cons.prems(4) by (rule poll_keeps_started)
    from Cons.IH[OF rs conjunct2[OF d] conjunct1[OF d] cv ex cbs] show ?thesis
      by (simp add: run_polls_Cons)
  qed
qed

text \<open>
  C4: let \<open>i\<close> be the id of a turn, not empty, that no random message id of the cycles
  equals. For every sequence of poll cycles: if \<open>i\<close> is already in \<open>seenMessageIds\<close>, the
  cycles add no message with that id to the transcript; if it is not, and the transcript
  holds no message with that id, then after the cycles the transcript holds at most one,
  however often and in whichever cycles the turn is delivered, and exactly one when the
  conversation has been started (its id is not empty), some cycle delivers the turn and the turn bears content.
\<close>

theorem turn_id_idempotent:
  assumes "i \<noteq> []" and "\<forall>p\<in>set ps. \<forall>n. poll_rnd p n \<noteq> i"
  shows
    "(i \<in> seenMessageIds s \<longrightarrow>
        filter (\<lambda>m. msg_id m = i) (messages (run_polls ps s))
          = filter (\<lambda>m. msg_id m = i) (messages s))
     \<and> (i \<notin> seenMessageIds s \<and> filter (\<lambda>m. msg_id m = i) (messages s) = [] \<longrightarrow>
          length (filter (\<lambda>m. msg_id m = i) (messages (run_polls ps s))) \<le> 1
          \<and> (started (chat_service s)
               \<and> (\<exists>p\<in>set ps. \<exists>a\<in>set (poll_activities p). turn_key a = i)
               \<and> (\<forall>p\<in>set ps. \<forall>a\<in>set (poll_activities p).
                     turn_key a = i \<longrightarrow> content_bearing a)
             \<longrightarrow> length (filter (\<lambda>m. msg_id m = i) (messages (run_polls ps s))) = 1))"
  using run_polls_skips_seen[OF assms, of s] run_polls_at_most_one[OF assms, of s]
    run_polls_exactly_one[OF assms, of s]
  by blast

theorem turn_id_idempotent_witness:
  "''c|1'' \<notin> seenMessageIds initial_state
   \<and> length (filter (\<lambda>m. msg_id m = ''c|1'')
         (messages (run_polls [replay_poll, two_turns] initial_state))) = 1
   \<and> filter (\<lambda>m. msg_id m = ''c|1'')
         (messages (run_polls [two_turns] (run_polls [replay_poll] initial_state)))
       = filter (\<lambda>m. msg_id m = ''c|1'') (messages (run_polls [replay_poll] initial_state))"
proof -
  have i: "''c|1'' \<noteq> []" by simp
  have r: "\<forall>p\<in>set [replay_poll, two_turns]. \<forall>n. poll_rnd p n \<noteq> ''c|1''"
    "\<forall>p\<in>set [two_turns]. \<forall>n. poll_rnd p n \<noteq> ''c|1''"
    by (simp_all add: replay_poll_def two_turns_def)
  have s: "''c|1'' \<notin> seenMessageIds initial_state
      \<and> filter (\<lambda>m. msg_id m = ''c|1'') (messages initial_state) = []"
    by (simp add: initial_state_def)
  have pa: "poll_activities replay_poll = [text_turn ''c|1'' ''Hello'', text_turn ''c|1'' ''Hello'']"
    "poll_activities two_turns = [text_turn ''c|1'' ''Hello'', text_turn ''c|2'' ''World'']"
    by (simp_all add: poll_activities_def replay_poll_def two_turns_def ok_def is_bot_message_def
        text_turn_def)
  have k: "turn_key (text_turn ''c|1'' ''Hello'') = ''c|1''"
    "turn_key (text_turn ''c|2'' ''World'') = ''c|2''"
    "content_bearing (text_turn ''c|1'' ''Hello'')"
    by (simp_all add: turn_key_def text_turn_def or_else_def truthy_def content_bearing_def
        mapActivity_def hasContent_def Let_def)
  have c: "started (chat_service initial_state)"
    by (simp add: initial_state_def sample_service_def started_def or_else_def truthy_def)
  have d: "(\<exists>p\<in>set [replay_poll, two_turns]. \<exists>a\<in>set (poll_activities p). turn_key a = ''c|1'')
      \<and> (\<forall>p\<in>set [replay_poll, two_turns]. \<forall>a\<in>set (poll_activities p).
             turn_key a = ''c|1'' \<longrightarrow> content_bearing a)"
    by (simp add: pa k)
  have seen: "''c|1'' \<in> seenMessageIds (run_polls [replay_poll] initial_state)"
    by (simp add: run_polls_def replay_poll_def sample_eval poll_eval)
  from turn_id_idempotent[OF i r(1), of initial_state] s c d
  have one: "length (filter (\<lambda>m. msg_id m = ''c|1'')
         (messages (run_polls [replay_poll, two_turns] initial_state))) = 1"
    by blast
  from turn_id_idempotent[OF i r(2), of "run_polls [replay_poll] initial_state"] seen
  have skip: "filter (\<lambda>m. msg_id m = ''c|1'')
         (messages (run_polls [two_turns] (run_polls [replay_poll] initial_state)))
       = filter (\<lambda>m. msg_id m = ''c|1'') (messages (run_polls [replay_poll] initial_state))"
    by blast
  from s one skip show ?thesis by simp
qed


lemma kept_idless:
  "length (filter (\<lambda>a. turn_key a = []) (poll_kept p s)) \<le> 1
   \<and> ([] \<in> seenMessageIds s \<longrightarrow> filter (\<lambda>a. turn_key a = []) (poll_kept p s) = [])
   \<and> (filter (\<lambda>a. turn_key a = []) (poll_kept p s) \<noteq> []
        \<longrightarrow> [] \<in> seenMessageIds (fst (pollMessages p s)))"
proof -
  obtain acts where a: "poll_kept p s = fst (filterSeen (seenMessageIds s) acts)"
    and b: "seenMessageIds (fst (pollMessages p s)) = seenMessageIds s \<union> turn_key ` set acts"
    using poll_cycle_shape by blast
  have k: "filter (\<lambda>a. turn_key a = []) (poll_kept p s)
      = (if [] \<in> seenMessageIds s then [] else take 1 (filter (\<lambda>a. turn_key a = []) acts))"
    by (simp add: a filterSeen_kept_key)
  have "filter (\<lambda>a. turn_key a = []) acts \<noteq> [] \<Longrightarrow> [] \<in> turn_key ` set acts"
    by (auto simp: filter_empty_conv intro: rev_image_eqI)
  with k b show ?thesis by auto
qed

lemma settled_idless:
  "length (filter (\<lambda>a. turn_key a = []) (settled_kept p s)) \<le> 1
   \<and> ([] \<in> seenMessageIds s \<longrightarrow> filter (\<lambda>a. turn_key a = []) (settled_kept p s) = [])
   \<and> (filter (\<lambda>a. turn_key a = []) (settled_kept p s) \<noteq> []
        \<longrightarrow> [] \<in> seenMessageIds (fst (poll_settled c p s)))"
proof -
  let ?acts = "poll_activities p"
  have k: "filter (\<lambda>a. turn_key a = []) (settled_kept p s)
      = (if [] \<in> seenMessageIds s then [] else take 1 (filter (\<lambda>a. turn_key a = []) ?acts))"
    by (simp add: settled_kept_eq filterSeen_kept_key)
  have "filter (\<lambda>a. turn_key a = []) ?acts \<noteq> [] \<Longrightarrow> [] \<in> turn_key ` set ?acts"
    by (auto simp: filter_empty_conv intro: rev_image_eqI)
  with k settled_cycle_shape[of c p s] show ?thesis by auto
qed

lemma op_kept_idless:
  "length (filter (\<lambda>a. turn_key a = [])
      (case op of Poll p \<Rightarrow> poll_kept p s | PollSettled c p \<Rightarrow> settled_kept p s | _ \<Rightarrow> [])) \<le> 1
   \<and> ([] \<in> seenMessageIds s \<longrightarrow>
        filter (\<lambda>a. turn_key a = [])
          (case op of Poll p \<Rightarrow> poll_kept p s | PollSettled c p \<Rightarrow> settled_kept p s | _ \<Rightarrow> [])
          = [])
   \<and> (filter (\<lambda>a. turn_key a = [])
          (case op of Poll p \<Rightarrow> poll_kept p s | PollSettled c p \<Rightarrow> settled_kept p s | _ \<Rightarrow> [])
          \<noteq> []
        \<longrightarrow> [] \<in> seenMessageIds (apply_op op s))"
proof (cases op)
  case (Poll p)
  with kept_idless[of p s] show ?thesis by simp
next
  case (PollSettled c p)
  with settled_idless[of p s c] show ?thesis by simp
qed simp_all

lemma kept_trace_idless_none:
  "NewChat \<notin> set ops \<Longrightarrow> [] \<in> seenMessageIds s
     \<Longrightarrow> filter (\<lambda>a. turn_key a = []) (kept_trace ops s) = []"
proof (induction ops arbitrary: s)
  case Nil
  then show ?case by simp
next
  case (Cons op ops)
  from Cons.prems have n: "op \<noteq> NewChat" and ns: "NewChat \<notin> set ops" by auto
  from ops_seen_mono[OF n, of s] Cons.prems(2)
  have "[] \<in> seenMessageIds (apply_op op s)" by auto
  from Cons.IH[OF ns this] op_kept_idless[where op=op and s=s] Cons.prems(2) show ?case
    by simp
qed

lemma kept_trace_idless_once:
  "NewChat \<notin> set ops \<Longrightarrow> length (filter (\<lambda>a. turn_key a = []) (kept_trace ops s)) \<le> 1"
proof (induction ops arbitrary: s)
  case Nil
  then show ?case by simp
next
  case (Cons op ops)
  from Cons.prems have n: "op \<noteq> NewChat" and ns: "NewChat \<notin> set ops" by auto
  show ?case
  proof (cases "filter (\<lambda>a. turn_key a = [])
      (case op of Poll p \<Rightarrow> poll_kept p s | PollSettled c p \<Rightarrow> settled_kept p s | _ \<Rightarrow> []) = []")
    case True
    with Cons.IH[OF ns, of "apply_op op s"] show ?thesis by simp
  next
    case False
    with op_kept_idless[where op=op and s=s] have "[] \<in> seenMessageIds (apply_op op s)" by simp
    from kept_trace_idless_none[OF ns this] op_kept_idless[where op=op and s=s] show ?thesis
      by simp
  qed
qed

text \<open>
  C10: activities without an id are all looked up under the empty key. As long as no new
  conversation is asked for, at most one activity without an id ever passes the filter on
  \<open>seenMessageIds\<close>, and none once the empty key is in the set, which it is as soon as one
  has passed; the messages of a cycle are mapped from the activities that pass, and the
  message mapped from an activity without an id gets the random id.
\<close>

theorem idless_turns_share_one_key:
  "(NewChat \<notin> set ops \<longrightarrow>
      length (filter (\<lambda>a. turn_key a = []) (kept_trace ops s)) \<le> 1)
   \<and> (NewChat \<notin> set ops \<and> [] \<in> seenMessageIds s \<longrightarrow>
        filter (\<lambda>a. turn_key a = []) (kept_trace ops s) = [])
   \<and> (filter (\<lambda>a. turn_key a = []) (poll_kept p s) \<noteq> [] \<longrightarrow>
        [] \<in> seenMessageIds (fst (pollMessages p s)))
   \<and> (turn_key a = [] \<longrightarrow> msg_id (mapActivity rnd now a) = rnd)
   \<and> newMessagesOf p s
       = filter hasContent (mapActivities (poll_rnd p) 0 (poll_now p) (poll_kept p s))"
  using kept_trace_idless_once[of ops s] kept_trace_idless_none[of ops s] kept_idless[of p s]
    newMessagesOf_kept[of p s]
  by (auto simp: mapActivity_id or_else_key truthy_def)

lemmas idless_eval = idless_turn_def idless_poll_def poll_kept_def settled_kept_def
  handleAudioPause_def turn_key_def

theorem idless_turns_share_one_key_witness:
  "NewChat \<notin> set [Poll (idless_poll ''A'' ''B''), AudioPause, Poll (idless_poll ''C'' ''D'')]
   \<and> length (filter (\<lambda>a. turn_key a = [])
        (kept_trace [Poll (idless_poll ''A'' ''B''), AudioPause, Poll (idless_poll ''C'' ''D'')]
           initial_state)) \<le> 1
   \<and> kept_trace [Poll (idless_poll ''A'' ''B''), AudioPause, Poll (idless_poll ''C'' ''D'')]
        initial_state = [idless_turn ''A'']
   \<and> [] \<in> seenMessageIds (fst (pollMessages (idless_poll ''A'' ''B'') initial_state))
   \<and> msg_id (mapActivity ''0.5'' ''now'' (idless_turn ''A'')) = ''0.5''
   \<and> map msg_id (messages (fst (pollMessages (idless_poll ''A'' ''B'') initial_state))) = [''0.5'']"
proof -
  let ?ops = "[Poll (idless_poll ''A'' ''B''), AudioPause, Poll (idless_poll ''C'' ''D'')]"
  have n: "NewChat \<notin> set ?ops" by simp
  have k: "poll_kept (idless_poll ''A'' ''B'') initial_state = [idless_turn ''A'']"
    by (simp add: sample_eval poll_eval idless_eval)
  have t: "turn_key (idless_turn ''A'') = []"
    by (simp add: turn_key_def idless_turn_def or_else_def)
  have tr: "kept_trace ?ops initial_state = [idless_turn ''A'']"
    by (simp add: sample_eval poll_eval idless_eval)
  have ms: "map msg_id (messages (fst (pollMessages (idless_poll ''A'' ''B'') initial_state))) = [''0.5'']"
    by (simp add: sample_eval poll_eval idless_eval)
  note w = idless_turns_share_one_key[of ?ops initial_state "idless_poll ''A'' ''B''"
      "idless_turn ''A''" "''0.5''" "''now''"]
  from w n have r1: "length (filter (\<lambda>a. turn_key a = []) (kept_trace ?ops initial_state)) \<le> 1"
    by blast
  from w k t have r2: "[] \<in> seenMessageIds (fst (pollMessages (idless_poll ''A'' ''B'') initial_state))"
    by simp
  from w t have r3: "msg_id (mapActivity ''0.5'' ''now'' (idless_turn ''A'')) = ''0.5''"
    by blast
  from n r1 tr r2 r3 ms show ?thesis by blast
qed

section \<open>Speech across a session\<close>

lemma distinct_mset_subseteq:
  assumes "mset ys \<subseteq># mset xs" and "distinct xs"
  shows "distinct ys"
proof -
  have "count (mset ys) a \<le> 1" for a
  proof -
    have "count (mset ys) a \<le> count (mset xs) a"
      using assms(1) by (rule mset_subset_eq_count)
    also have "\<dots> \<le> 1" using assms(2) by (simp add: distinct_count_atmost_1)
    finally show ?thesis .
  qed
  then show ?thesis
    unfolding distinct_count_atmost_1
    by (metis count_mset_0_iff le_antisym less_one not_less set_mset_mset count_greater_zero_iff One_nat_def Suc_leI)
qed

lemma queued_ids_append: "queued_ids (pool @ ts) = queued_ids pool @ queued_ids ts"
  by (simp add: queued_ids_def)

lemma queued_ids_walk_list:
  "queued_ids (walk_list t) = (case t of None \<Rightarrow> [] | Some w \<Rightarrow> map msg_id (remaining w))"
  by (cases t) (simp_all add: queued_ids_def walk_list_def)

lemma queued_ids_remove1:
  "t \<in> set pool \<Longrightarrow>
   mset (queued_ids pool) = mset (queued_ids (remove1 t pool)) + mset (map msg_id (remaining t))"
  by (induction pool) (auto simp: queued_ids_def)

lemma walk_loop_ids:
  "mset (handed_ids (snd (walk_loop dm ms s), pool @ walk_list (fst (walk_loop dm ms s))))
     = mset (handed_ids (s, pool))
       + (if ms = [] \<or> cancelSpeechRef s then {#} else mset (map msg_id ms))"
  by (cases ms)
     (simp_all add: handed_ids_def queued_ids_append queued_ids_walk_list walk_finally_def
        walk_list_def queued_ids_def)

lemma walk_start_ids:
  "mset (handed_ids (snd (walk_start dm ms s), pool @ walk_list (fst (walk_start dm ms s))))
     = mset (handed_ids (s, pool))
       + (if ms = [] \<or> cancelSpeechRef s then {#} else mset (map msg_id ms))"
  unfolding walk_start_def by (simp add: walk_loop_ids) (simp add: handed_ids_def)

lemma walk_resume_ids:
  assumes "t \<in> set pool"
  shows "mset (handed_ids (snd (walk_resume outcome t s),
                 remove1 t pool @ walk_list (fst (walk_resume outcome t s))))
     \<subseteq># mset (handed_ids (s, pool))"
proof -
  have "mset (handed_ids (s, pool))
      = mset (handed_ids (s, remove1 t pool)) + mset (map msg_id (remaining t))"
    using queued_ids_remove1[OF assms] by (simp add: handed_ids_def)
  then show ?thesis
    unfolding walk_resume_def
    by (cases outcome) (simp_all add: walk_loop_ids, simp_all add: handed_ids_def)
qed

lemma speak_ids:
  "\<exists>us. (us = [] \<or> us = fst (markUnspoken (spokenMessageIds s) ms))
     \<and> mset (handed_ids (fst (speakNewMessages dm ms s),
                 pool @ walk_list (snd (speakNewMessages dm ms s))))
         = mset (handed_ids (s, pool)) + mset (map msg_id us)"
proof -
  let ?u = "fst (markUnspoken (spokenMessageIds s) ms)"
  let ?s1 = "s\<lparr>spokenMessageIds := snd (markUnspoken (spokenMessageIds s) ms)\<rparr>"
  have h: "handed_ids (?s1\<lparr>isSpeakingRef := True\<rparr>, pool) = handed_ids (s, pool)"
    "handed_ids (?s1, pool) = handed_ids (s, pool)"
    by (simp_all add: handed_ids_def)
  show ?thesis
  proof (cases "?u = [] \<or> isSpeakingRef s")
    case True
    then have "speakNewMessages dm ms s = (?s1, None)"
      by (auto simp: speakNewMessages_def Let_def split_beta)
    then show ?thesis
      by (intro exI[of _ "[]"]) (simp add: h walk_list_def)
  next
    case False
    then have e: "speakNewMessages dm ms s
        = (snd (walk_start dm ?u (?s1\<lparr>isSpeakingRef := True\<rparr>)),
           fst (walk_start dm ?u (?s1\<lparr>isSpeakingRef := True\<rparr>)))"
      by (simp add: speakNewMessages_def Let_def split_beta)
    show ?thesis
    proof (cases "cancelSpeechRef s")
      case True
      then show ?thesis
        using walk_start_ids[of dm ?u "?s1\<lparr>isSpeakingRef := True\<rparr>" pool]
        by (intro exI[of _ "[]"]) (simp add: e h)
    next
      case c: False
      with False show ?thesis
        using walk_start_ids[of dm ?u "?s1\<lparr>isSpeakingRef := True\<rparr>" pool]
        by (intro exI[of _ ?u]) (simp add: e h)
    qed
  qed
qed

lemma handle_ids:
  "\<exists>us. set us \<subseteq> set (case fst r of Inl e \<Rightarrow> [] | Inr ms \<Rightarrow> ms)
     \<and> distinct (map msg_id us)
     \<and> (\<forall>m\<in>set us. msg_id m \<notin> spokenMessageIds (snd r))
     \<and> msg_id ` set us \<subseteq> spokenMessageIds (fst (handleNewMessages muted dm r))
     \<and> mset (handed_ids (fst (handleNewMessages muted dm r),
                 pool @ walk_list (snd (handleNewMessages muted dm r))))
         = mset (handed_ids (snd r, pool)) + mset (map msg_id us)"
proof (cases r)
  case (Pair x s1)
  show ?thesis
  proof (cases x)
    case (Inl e)
    with Pair show ?thesis
      by (intro exI[of _ "[]"]) (simp add: handleNewMessages_def handed_ids_def walk_list_def)
  next
    case (Inr ms)
    let ?s2 = "s1\<lparr>isTyping := False, messages := messages s1 @ ms,
        lastBotResponse :=
          (if truthy (or_else (speakText (last ms)) []) then or_else (speakText (last ms)) []
           else lastBotResponse s1)\<rparr>"
    have h2: "handed_ids (?s2, pool) = handed_ids (s1, pool)"
      by (simp add: handed_ids_def)
    show ?thesis
    proof (cases "ms \<noteq> [] \<and> (\<not> muted \<or> dm)")
      case False
      with Pair Inr have "handleNewMessages muted dm r = (s1, None)
          \<or> handleNewMessages muted dm r = (?s2, None)"
        by (auto simp: handleNewMessages_def Let_def)
      then show ?thesis using Pair
        by (intro exI[of _ "[]"]) (auto simp: handed_ids_def walk_list_def)
    next
      case True
      with Pair Inr have e: "handleNewMessages muted dm r = speakNewMessages dm ms ?s2"
        by (auto simp: handleNewMessages_def Let_def)
      obtain us where u: "us = [] \<or> us = fst (markUnspoken (spokenMessageIds ?s2) ms)"
        and m: "mset (handed_ids (fst (speakNewMessages dm ms ?s2),
                 pool @ walk_list (snd (speakNewMessages dm ms ?s2))))
         = mset (handed_ids (?s2, pool)) + mset (map msg_id us)"
        using speak_ids by blast
      have sp: "spokenMessageIds (fst (speakNewMessages dm ms ?s2))
          = snd (markUnspoken (spokenMessageIds s1) ms)"
        by (simp add: speakNewMessages_frame)
      from u have a: "set us \<subseteq> set ms"
        using markUnspoken_subset[of "spokenMessageIds s1" ms] by auto
      from u have b: "distinct (map msg_id us)"
        using markUnspoken_distinct[of "spokenMessageIds s1" ms] by auto
      from u have c: "\<forall>m\<in>set us. msg_id m \<notin> spokenMessageIds s1"
        using markUnspoken_fresh[of _ "spokenMessageIds s1" ms] by auto
      from u have d: "msg_id ` set us \<subseteq> snd (markUnspoken (spokenMessageIds s1) ms)"
        by (auto simp: markUnspoken_snd[of "spokenMessageIds s1" ms])
      from Pair Inr have fr: "fst r = Inr ms" "snd r = s1" by simp_all
      from a b c d m show ?thesis
        by (intro exI[of _ us]) (simp add: e sp h2 fr)
    qed
  qed
qed

lemma poll_settled_ids:
  "\<exists>us. set us \<subseteq> set (case fst (settledNewMessages p s) of Inl e \<Rightarrow> [] | Inr ms \<Rightarrow> ms)
     \<and> distinct (map msg_id us)
     \<and> (\<forall>m\<in>set us. msg_id m \<notin> spokenMessageIds s)
     \<and> msg_id ` set us \<subseteq> spokenMessageIds (fst (poll_settled c p s))
     \<and> mset (handed_ids (fst (poll_settled c p s), pool @ walk_list (snd (poll_settled c p s))))
         = mset (handed_ids (s, pool)) + mset (map msg_id us)"
proof -
  obtain svc st seen where fr: "snd (settledNewMessages p s)
     = s\<lparr>chat_service := svc, conversation_store := st, seenMessageIds := seen\<rparr>"
    using settled_frame by blast
  then have "handed_ids (snd (settledNewMessages p s), pool) = handed_ids (s, pool)"
    "spokenMessageIds (snd (settledNewMessages p s)) = spokenMessageIds s"
    by (simp_all add: handed_ids_def)
  with handle_ids[of "settledNewMessages p s" "call_isMuted c" "call_drivingMode c" pool]
  show ?thesis by (simp add: poll_settled_def)
qed

lemma pollMessages_ids:
  "\<exists>us. set us \<subseteq> set (newMessagesOf p s)
     \<and> distinct (map msg_id us)
     \<and> (\<forall>m\<in>set us. msg_id m \<notin> spokenMessageIds s)
     \<and> msg_id ` set us \<subseteq> spokenMessageIds (fst (pollMessages p s))
     \<and> mset (handed_ids (fst (pollMessages p s), pool @ walk_list (snd (pollMessages p s))))
         = mset (handed_ids (s, pool)) + mset (map msg_id us)"
proof -
  obtain svc st seen where fr: "snd (fetchNewMessages p s)
     = s\<lparr>chat_service := svc, conversation_store := st, seenMessageIds := seen\<rparr>"
    using fetch_frame by blast
  then have "handed_ids (snd (fetchNewMessages p s), pool) = handed_ids (s, pool)"
    "spokenMessageIds (snd (fetchNewMessages p s)) = spokenMessageIds s"
    by (simp_all add: handed_ids_def)
  with handle_ids[of "fetchNewMessages p s" "isMuted s" "drivingMode s" pool]
  show ?thesis by (simp add: pollMessages_def newMessagesOf_def)
qed

lemma sendMessage_speakCalls: "speakCalls (sendMessage env text s) = speakCalls s"
  by (simp add: sendMessage_def Let_def split: sum.splits)

lemma other_ops_speakCalls:
  "op_input op = None \<Longrightarrow> (\<forall>outcome t. op \<noteq> SpeakSettled outcome t)
     \<Longrightarrow> speakCalls (apply_op op s) = speakCalls s"
  by (cases op)
     (simp_all add: op_input_def poll_start_def onresult_def autoSendFire_def
        sendMessage_speakCalls handleNewChat_def handleAudioPlay_def handleAudioPause_def
        handleAudioStop_def handleDrivingModeStart_def handleDrivingModeStop_def
        cancelResetFire_def micRestartFire_def forceStopMic_def
        split: option.splits)

lemma other_ops_session:
  "op_input op = None \<Longrightarrow> (\<forall>outcome t. op \<noteq> SpeakSettled outcome t)
     \<Longrightarrow> session_step op (s, pool) = (apply_op op s, pool)"
  by (cases op) (simp_all add: op_input_def)

lemma session_step_ids:
  "\<exists>us. set us \<subseteq> set (case op of Poll p \<Rightarrow> newMessagesOf p s
                          | PollSettled c p \<Rightarrow>
                              (case fst (settledNewMessages p s) of Inl e \<Rightarrow> [] | Inr ms \<Rightarrow> ms)
                          | _ \<Rightarrow> [])
     \<and> distinct (map msg_id us)
     \<and> (\<forall>m\<in>set us. msg_id m \<notin> spokenMessageIds s)
     \<and> msg_id ` set us \<subseteq> spokenMessageIds (fst (session_step op (s, pool)))
     \<and> spokenMessageIds s \<subseteq> spokenMessageIds (fst (session_step op (s, pool)))
     \<and> mset (handed_ids (session_step op (s, pool)))
         \<subseteq># mset (handed_ids (s, pool)) + mset (map msg_id us)"
proof (cases "op_input op = None \<and> (\<forall>outcome t. op \<noteq> SpeakSettled outcome t)")
  case True
  then have "session_step op (s, pool) = (apply_op op s, pool)"
    by (simp add: other_ops_session)
  moreover have "handed_ids (apply_op op s, pool) = handed_ids (s, pool)"
    using True by (simp add: handed_ids_def other_ops_speakCalls)
  ultimately show ?thesis
    using ops_spoken_mono[of s op] by (intro exI[of _ "[]"]) simp
next
  case False
  then consider (poll) p where "op = Poll p" | (settled) c p where "op = PollSettled c p"
    | (speak) outcome t where "op = SpeakSettled outcome t"
    by (cases op) (simp_all add: op_input_def)
  then show ?thesis
  proof cases
    case poll
    with pollMessages_ids[of p s pool] poll_spoken_mono[of s p] show ?thesis
      by auto
  next
    case settled
    with poll_settled_ids[of p s c pool] poll_settled_spoken_mono[of s c p] show ?thesis
      by auto
  next
    case speak
    show ?thesis
    proof (cases "t \<in> set pool")
      case True
      with speak walk_resume_ids[OF True, of outcome s] show ?thesis
        by (intro exI[of _ "[]"]) (simp add: walk_resume_frame)
    next
      case False
      with speak show ?thesis by (intro exI[of _ "[]"]) simp
    qed
  qed
qed

lemma session_step_spoken_once:
  assumes "spoken_once (s, pool)"
  shows "spoken_once (session_step op (s, pool))"
proof -
  define x' where "x' = session_step op (s, pool)"
  define h where "h = handed_ids (s, pool)"
  from session_step_ids[where op=op and s=s and pool=pool]
  obtain us :: "message list" where u: "distinct (map msg_id us)
      \<and> (\<forall>m\<in>set us. msg_id m \<notin> spokenMessageIds s)
      \<and> msg_id ` set us \<subseteq> spokenMessageIds (fst x')
      \<and> spokenMessageIds s \<subseteq> spokenMessageIds (fst x')
      \<and> mset (handed_ids x') \<subseteq># mset h + mset (map msg_id us)"
    unfolding x'_def h_def by blast
  define new where "new = map msg_id us"
  from u have d: "distinct new" and f: "set new \<inter> spokenMessageIds s = {}"
    and n: "set new \<subseteq> spokenMessageIds (fst x')"
    and o: "spokenMessageIds s \<subseteq> spokenMessageIds (fst x')"
    and m: "mset (handed_ids x') \<subseteq># mset (h @ new)"
    unfolding new_def by auto
  from assms have a: "distinct h" and b: "set h \<subseteq> spokenMessageIds s"
    unfolding h_def by (simp_all add: spoken_once_def)
  from a b d f have "distinct (h @ new)" by auto
  with m have 1: "distinct (handed_ids x')" by (rule distinct_mset_subseteq)
  from m have "set_mset (mset (handed_ids x')) \<subseteq> set_mset (mset (h @ new))"
    by (rule set_mset_mono)
  then have "set (handed_ids x') \<subseteq> set h \<union> set new" by simp
  with b n o have 2: "set (handed_ids x') \<subseteq> spokenMessageIds (fst x')" by blast
  from 1 2 show ?thesis unfolding x'_def by (simp add: spoken_once_def)
qed

lemma run_session_Cons: "run_session (op # ops) x = run_session ops (session_step op x)"
  by (simp add: run_session_def)

lemma run_session_spoken_once: "spoken_once x \<Longrightarrow> spoken_once (run_session ops x)"
proof (induction ops arbitrary: x)
  case Nil
  then show ?case by (simp add: run_session_def)
next
  case (Cons op ops)
  from Cons.prems have "spoken_once (session_step op x)"
    using session_step_spoken_once[of "fst x" "snd x" op] by simp
  from Cons.IH[OF this] show ?case by (simp add: run_session_Cons)
qed

lemma held_lock_speak:
  "isSpeakingRef s \<Longrightarrow>
   speakNewMessages dm ms s
     = (s\<lparr>spokenMessageIds := snd (markUnspoken (spokenMessageIds s) ms)\<rparr>, None)"
  by (simp add: speakNewMessages_def Let_def split_beta)

lemma held_lock_handle:
  assumes "isSpeakingRef (snd r)" and "\<not> muted \<or> dm" and "fst r = Inr newMessages"
  shows "snd (handleNewMessages muted dm r) = None
       \<and> speakCalls (fst (handleNewMessages muted dm r)) = speakCalls (snd r)
       \<and> isSpeakingRef (fst (handleNewMessages muted dm r))
       \<and> (\<forall>m\<in>set newMessages. truthy (or_else (speakText m) [])
             \<longrightarrow> msg_id m \<in> spokenMessageIds (fst (handleNewMessages muted dm r)))"
proof (cases r)
  case (Pair x s1)
  with assms have x: "x = Inr newMessages" and l: "isSpeakingRef s1" by simp_all
  show ?thesis
  proof (cases "newMessages = []")
    case True
    with Pair x l show ?thesis by (simp add: handleNewMessages_def)
  next
    case False
    with Pair x l assms(2) show ?thesis
      using markUnspoken_all_marked[of _ newMessages "spokenMessageIds s1"]
      by (simp add: handleNewMessages_def Let_def held_lock_speak)
  qed
qed

text \<open>
  C2: when the speak path is entered while the speaking lock is held, it marks the
  messages and returns: its only effect is on \<open>spokenMessageIds\<close>, where every message
  with a speakable text is afterwards. So a poll whose closure is not muted, or is in
  hands-free mode, and that finds the lock held starts no walk and calls \<open>speak\<close> for
  nothing, the lock stays held, and all its new messages with a speakable text are in
  \<open>spokenMessageIds\<close>; this holds of a call whose fetch settles at any moment and of a
  tick that settles at once. In the course of a session, whatever its operations and the
  order in which the fetches and the utterances settle, the ids of the messages that
  \<open>speak\<close> was called for and of those that suspended walks still hold are pairwise
  different and all in \<open>spokenMessageIds\<close>: from a state in which nothing has been spoken,
  \<open>speak\<close> is never called twice for a message or for an id.
\<close>

theorem held_lock_marks_and_nothing_is_spoken_twice:
  "(isSpeakingRef s \<longrightarrow>
      speakNewMessages dm ms s
        = (s\<lparr>spokenMessageIds := snd (markUnspoken (spokenMessageIds s) ms)\<rparr>, None)
      \<and> (\<forall>m\<in>set ms. truthy (or_else (speakText m) [])
            \<longrightarrow> msg_id m \<in> snd (markUnspoken (spokenMessageIds s) ms)))
   \<and> (isSpeakingRef s \<and> (\<not> call_isMuted c \<or> call_drivingMode c)
        \<and> fst (settledNewMessages p s) = Inr newMessages \<longrightarrow>
          snd (poll_settled c p s) = None
          \<and> speakCalls (fst (poll_settled c p s)) = speakCalls s
          \<and> isSpeakingRef (fst (poll_settled c p s))
          \<and> spokenMessageIds s \<subseteq> spokenMessageIds (fst (poll_settled c p s))
          \<and> (\<forall>m\<in>set newMessages. truthy (or_else (speakText m) [])
                \<longrightarrow> msg_id m \<in> spokenMessageIds (fst (poll_settled c p s))))
   \<and> (isSpeakingRef s \<and> (\<not> isMuted s \<or> drivingMode s)
        \<and> fst (fetchNewMessages p s) = Inr newMessages \<longrightarrow>
          snd (pollMessages p s) = None
          \<and> speakCalls (fst (pollMessages p s)) = speakCalls s
          \<and> isSpeakingRef (fst (pollMessages p s))
          \<and> spokenMessageIds s \<subseteq> spokenMessageIds (fst (pollMessages p s))
          \<and> (\<forall>m\<in>set newMessages. truthy (or_else (speakText m) [])
                \<longrightarrow> msg_id m \<in> spokenMessageIds (fst (pollMessages p s))))
   \<and> (spoken_once x \<longrightarrow> spoken_once (run_session ops x))
   \<and> (speakCalls s = [] \<longrightarrow>
        distinct (map msg_id (speakCalls (fst (run_session ops (s, [])))))
        \<and> distinct (speakCalls (fst (run_session ops (s, []))))
        \<and> msg_id ` set (speakCalls (fst (run_session ops (s, []))))
             \<subseteq> spokenMessageIds (fst (run_session ops (s, []))))"
proof (intro conjI impI)
  show "speakNewMessages dm ms s
        = (s\<lparr>spokenMessageIds := snd (markUnspoken (spokenMessageIds s) ms)\<rparr>, None)"
    if "isSpeakingRef s"
    using that by (rule held_lock_speak)
  show "\<forall>m\<in>set ms. truthy (or_else (speakText m) [])
            \<longrightarrow> msg_id m \<in> snd (markUnspoken (spokenMessageIds s) ms)"
    using markUnspoken_all_marked[of _ ms "spokenMessageIds s"] by blast
  show "spoken_once (run_session ops x)" if "spoken_once x"
    using that by (rule run_session_spoken_once)
next
  assume a: "isSpeakingRef s \<and> (\<not> call_isMuted c \<or> call_drivingMode c)
        \<and> fst (settledNewMessages p s) = Inr newMessages"
  obtain svc st seen where fr: "snd (settledNewMessages p s)
     = s\<lparr>chat_service := svc, conversation_store := st, seenMessageIds := seen\<rparr>"
    using settled_frame by blast
  with a have l: "isSpeakingRef (snd (settledNewMessages p s))" by simp
  from a have f: "\<not> call_isMuted c \<or> call_drivingMode c"
    and n: "fst (settledNewMessages p s) = Inr newMessages" by simp_all
  note h = held_lock_handle[OF l f n]
  from h show "snd (poll_settled c p s) = None" by (simp add: poll_settled_def)
  from h fr show "speakCalls (fst (poll_settled c p s)) = speakCalls s"
    by (simp add: poll_settled_def)
  from h show "isSpeakingRef (fst (poll_settled c p s))" by (simp add: poll_settled_def)
  show "spokenMessageIds s \<subseteq> spokenMessageIds (fst (poll_settled c p s))"
    by (rule poll_settled_spoken_mono)
  from h show "\<forall>m\<in>set newMessages. truthy (or_else (speakText m) [])
                \<longrightarrow> msg_id m \<in> spokenMessageIds (fst (poll_settled c p s))"
    by (simp add: poll_settled_def)
next
  assume a: "isSpeakingRef s \<and> (\<not> isMuted s \<or> drivingMode s)
        \<and> fst (fetchNewMessages p s) = Inr newMessages"
  obtain svc st seen where fr: "snd (fetchNewMessages p s)
     = s\<lparr>chat_service := svc, conversation_store := st, seenMessageIds := seen\<rparr>"
    using fetch_frame by blast
  with a have l: "isSpeakingRef (snd (fetchNewMessages p s))" by simp
  from a have f: "\<not> isMuted s \<or> drivingMode s"
    and n: "fst (fetchNewMessages p s) = Inr newMessages" by simp_all
  note h = held_lock_handle[OF l f n]
  from h show "snd (pollMessages p s) = None" by (simp add: pollMessages_def)
  from h fr show "speakCalls (fst (pollMessages p s)) = speakCalls s"
    by (simp add: pollMessages_def)
  from h show "isSpeakingRef (fst (pollMessages p s))" by (simp add: pollMessages_def)
  show "spokenMessageIds s \<subseteq> spokenMessageIds (fst (pollMessages p s))"
    by (rule poll_spoken_mono)
  from h show "\<forall>m\<in>set newMessages. truthy (or_else (speakText m) [])
                \<longrightarrow> msg_id m \<in> spokenMessageIds (fst (pollMessages p s))"
    by (simp add: pollMessages_def)
next
  assume "speakCalls s = []"
  then have "spoken_once (s, [])"
    by (simp add: spoken_once_def handed_ids_def queued_ids_def)
  then have so: "spoken_once (run_session ops (s, []))" by (rule run_session_spoken_once)
  then show d: "distinct (map msg_id (speakCalls (fst (run_session ops (s, [])))))"
    by (simp add: spoken_once_def handed_ids_def)
  then show "distinct (speakCalls (fst (run_session ops (s, []))))"
    by (simp add: distinct_map)
  from so show "msg_id ` set (speakCalls (fst (run_session ops (s, []))))
             \<subseteq> spokenMessageIds (fst (run_session ops (s, [])))"
    by (simp add: spoken_once_def handed_ids_def)
qed

lemmas session_eval = run_session_def walk_resume_def walk_list_def world_walk_def
  later_turns_def first_call_def handleNewChat_def clearConversationState_def
  handleAudioPlay_def

theorem held_lock_marks_and_nothing_is_spoken_twice_witness:
  "isSpeakingRef speaking_state \<and> \<not> call_isMuted first_call
   \<and> fst (settledNewMessages two_turns speaking_state)
       = Inr [text_message ''c|1'' ''Hello'', text_message ''c|2'' ''World'']
   \<and> snd (poll_settled first_call two_turns speaking_state) = None
   \<and> speakCalls (fst (poll_settled first_call two_turns speaking_state)) = []
   \<and> ''c|1'' \<in> spokenMessageIds (fst (poll_settled first_call two_turns speaking_state))
   \<and> ''c|2'' \<in> spokenMessageIds (fst (poll_settled first_call two_turns speaking_state))
   \<and> speakCalls initial_state = []
   \<and> map msg_id (speakCalls (fst (run_session
        [Poll two_turns, PollSettled first_call later_turns, SpeakSettled Resolved world_walk,
         SpeakSettled Resolved \<lparr>walk_drivingMode = False, remaining = []\<rparr>, NewChat,
         Poll two_turns] (initial_state, [])))) = [''c|1'', ''c|2'']
   \<and> map msg_id (messages (fst (run_session
        [Poll two_turns, PollSettled first_call later_turns, SpeakSettled Resolved world_walk,
         SpeakSettled Resolved \<lparr>walk_drivingMode = False, remaining = []\<rparr>, NewChat,
         Poll two_turns] (initial_state, [])))) = [''c|1'', ''c|2'']
   \<and> ''c|3'' \<in> spokenMessageIds (fst (run_session
        [Poll two_turns, PollSettled first_call later_turns, SpeakSettled Resolved world_walk,
         SpeakSettled Resolved \<lparr>walk_drivingMode = False, remaining = []\<rparr>, NewChat,
         Poll two_turns] (initial_state, [])))
   \<and> distinct (speakCalls (fst (run_session
        [Poll two_turns, PollSettled first_call later_turns, SpeakSettled Resolved world_walk,
         SpeakSettled Resolved \<lparr>walk_drivingMode = False, remaining = []\<rparr>, NewChat,
         Poll two_turns] (initial_state, []))))"
proof -
  let ?ops = "[Poll two_turns, PollSettled first_call later_turns, SpeakSettled Resolved world_walk,
         SpeakSettled Resolved \<lparr>walk_drivingMode = False, remaining = []\<rparr>, NewChat,
         Poll two_turns]"
  have h1: "isSpeakingRef speaking_state" and h0: "\<not> call_isMuted first_call"
    and h5: "speakCalls initial_state = []" "speakCalls speaking_state = []"
    by (simp_all add: speaking_state_def initial_state_def first_call_def)
  from h0 have h2: "\<not> call_isMuted first_call \<or> call_drivingMode first_call" ..
  have h3: "fst (settledNewMessages two_turns speaking_state)
       = Inr [text_message ''c|1'' ''Hello'', text_message ''c|2'' ''World'']"
    by (simp add: speaking_state_def sample_eval poll_eval)
  have h4: "truthy (or_else (speakText (text_message ''c|1'' ''Hello'')) [])"
    "truthy (or_else (speakText (text_message ''c|2'' ''World'')) [])"
    "msg_id (text_message ''c|1'' ''Hello'') = ''c|1''"
    "msg_id (text_message ''c|2'' ''World'') = ''c|2''"
    by (simp_all add: text_message_def or_else_def truthy_def)
  have r: "map msg_id (speakCalls (fst (run_session ?ops (initial_state, [])))) = [''c|1'', ''c|2'']"
    "map msg_id (messages (fst (run_session ?ops (initial_state, [])))) = [''c|1'', ''c|2'']"
    "''c|3'' \<in> spokenMessageIds (fst (run_session ?ops (initial_state, [])))"
    by (simp_all add: session_eval sample_eval poll_eval)
  note a = held_lock_marks_and_nothing_is_spoken_twice[where s=speaking_state and c=first_call
      and p=two_turns
      and newMessages="[text_message ''c|1'' ''Hello'', text_message ''c|2'' ''World'']"]
  note b = held_lock_marks_and_nothing_is_spoken_twice[where s=initial_state and ops="?ops"]
  from a h1 h2 h3 h4 h5 have r1: "snd (poll_settled first_call two_turns speaking_state) = None"
    and r2: "speakCalls (fst (poll_settled first_call two_turns speaking_state)) = []"
    and r3: "''c|1'' \<in> spokenMessageIds (fst (poll_settled first_call two_turns speaking_state))"
    and r4: "''c|2'' \<in> spokenMessageIds (fst (poll_settled first_call two_turns speaking_state))"
    by simp_all
  from b h5 have r5: "distinct (speakCalls (fst (run_session ?ops (initial_state, []))))"
    by simp
  from h1 h0 h3 h5 r r1 r2 r3 r4 r5 show ?thesis by simp
qed

lemma filterSeen_subset: "set (fst (filterSeen seen acts)) \<subseteq> set acts"
  by (induction seen acts rule: filterSeen.induct) (auto simp: Let_def split: prod.splits)

lemma mapActivities_ids:
  "m \<in> set (mapActivities rnd k now as)
     \<Longrightarrow> (\<exists>n. msg_id m = rnd n) \<or> (msg_id m \<noteq> [] \<and> msg_id m \<in> turn_key ` set as)"
proof (induction as arbitrary: k)
  case Nil
  then show ?case by simp
next
  case (Cons a as)
  from Cons.prems consider "m = mapActivity (rnd k) now a"
    | "m \<in> set (mapActivities rnd (if truthy (or_else (act_id a) []) then k else Suc k) now as)"
    by auto
  then show ?case
  proof cases
    case 1
    then show ?thesis
      by (cases "truthy (turn_key a)") (auto simp: mapActivity_id or_else_key truthy_def)
  next
    case 2
    from Cons.IH[OF this] show ?thesis by auto
  qed
qed

lemma no_id_in_filter:
  "filter (\<lambda>m. msg_id m = i) ms = [] \<Longrightarrow> i \<notin> msg_id ` set ms"
  by (auto simp: filter_empty_conv)

lemma settled_skips_seen:
  assumes "i \<noteq> []" and "\<forall>n. poll_rnd p n \<noteq> i" and "i \<in> seenMessageIds s"
  shows "i \<notin> msg_id ` set (case fst (settledNewMessages p s) of Inl e \<Rightarrow> [] | Inr ms \<Rightarrow> ms)"
proof -
  have "filter (\<lambda>a. turn_key a = i) (settled_kept p s) = []"
    using assms(3) by (simp add: settled_kept_eq filterSeen_kept_key)
  with mapActivities_id_filter[OF assms(1,2), of 0 "poll_now p" "settled_kept p s"]
  show ?thesis
    by (intro no_id_in_filter) (simp add: settled_new_kept del: filter_filter)
qed

lemma poll_skips_seen_new:
  assumes "i \<noteq> []" and "\<forall>n. poll_rnd p n \<noteq> i" and "i \<in> seenMessageIds s"
  shows "i \<notin> msg_id ` set (newMessagesOf p s)"
proof -
  obtain acts where a: "poll_kept p s = fst (filterSeen (seenMessageIds s) acts)"
    using poll_cycle_shape by blast
  have "filter (\<lambda>a. turn_key a = i) (poll_kept p s) = []"
    using assms(3) by (simp add: a filterSeen_kept_key)
  with mapActivities_id_filter[OF assms(1,2), of 0 "poll_now p" "poll_kept p s"]
  show ?thesis
    by (intro no_id_in_filter) (simp add: newMessagesOf_kept del: filter_filter)
qed

lemma session_step_seen:
  "seenMessageIds (fst (session_step op (s, pool))) = seenMessageIds (apply_op op s)"
  by (cases op) (simp_all add: walk_resume_frame)

lemma session_step_skips_seen:
  assumes "i \<noteq> []" and "op \<noteq> NewChat"
    and "\<forall>q. op_input op = Some q \<longrightarrow> (\<forall>n. poll_rnd q n \<noteq> i)"
    and "i \<in> seenMessageIds s" and "i \<notin> set (handed_ids (s, pool))"
  shows "i \<in> seenMessageIds (fst (session_step op (s, pool)))
       \<and> i \<notin> set (handed_ids (session_step op (s, pool)))"
proof -
  define x' where "x' = session_step op (s, pool)"
  define h where "h = handed_ids (s, pool)"
  define new where "new = (case op of Poll p \<Rightarrow> newMessagesOf p s
                          | PollSettled c p \<Rightarrow>
                              (case fst (settledNewMessages p s) of Inl e \<Rightarrow> [] | Inr ms \<Rightarrow> ms)
                          | _ \<Rightarrow> [])"
  from session_step_ids[where op=op and s=s and pool=pool]
  obtain us :: "message list" where u: "set us \<subseteq> set new"
    and m: "mset (handed_ids x') \<subseteq># mset h + mset (map msg_id us)"
    unfolding x'_def h_def new_def by blast
  have "i \<notin> msg_id ` set new"
  proof (cases op)
    case (Poll p)
    with assms(3) have "\<forall>n. poll_rnd p n \<noteq> i" by (simp add: op_input_def)
    from poll_skips_seen_new[OF assms(1) this assms(4)] Poll show ?thesis
      by (simp add: new_def)
  next
    case (PollSettled c p)
    with assms(3) have "\<forall>n. poll_rnd p n \<noteq> i" by (simp add: op_input_def)
    from settled_skips_seen[OF assms(1) this assms(4)] PollSettled show ?thesis
      by (simp add: new_def)
  qed (simp_all add: new_def)
  with u have n: "i \<notin> set (map msg_id us)" by auto
  from m have "mset (handed_ids x') \<subseteq># mset (h @ map msg_id us)" by simp
  then have "set_mset (mset (handed_ids x')) \<subseteq> set_mset (mset (h @ map msg_id us))"
    by (rule set_mset_mono)
  then have "set (handed_ids x') \<subseteq> set h \<union> set (map msg_id us)" by simp
  with n assms(5) have 1: "i \<notin> set (handed_ids x')" unfolding h_def by blast
  from ops_seen_mono[OF assms(2), of s] assms(4)
  have 2: "i \<in> seenMessageIds (fst x')" unfolding x'_def by (auto simp: session_step_seen)
  from 1 2 show ?thesis unfolding x'_def by simp
qed

lemma run_session_skips_seen:
  assumes "i \<noteq> []"
  shows "NewChat \<notin> set ops
     \<Longrightarrow> \<forall>op\<in>set ops. \<forall>q. op_input op = Some q \<longrightarrow> (\<forall>n. poll_rnd q n \<noteq> i)
     \<Longrightarrow> i \<in> seenMessageIds (fst x) \<Longrightarrow> i \<notin> set (handed_ids x)
     \<Longrightarrow> i \<notin> set (handed_ids (run_session ops x))"
proof (induction ops arbitrary: x)
  case Nil
  then show ?case by (simp add: run_session_def)
next
  case (Cons op ops)
  from Cons.prems have n: "op \<noteq> NewChat" and ns: "NewChat \<notin> set ops"
    and r: "\<forall>q. op_input op = Some q \<longrightarrow> (\<forall>n. poll_rnd q n \<noteq> i)"
    and rs: "\<forall>op\<in>set ops. \<forall>q. op_input op = Some q \<longrightarrow> (\<forall>n. poll_rnd q n \<noteq> i)"
    by auto
  from Cons.prems(3,4) have "i \<in> seenMessageIds (fst x)" "i \<notin> set (handed_ids (fst x, snd x))"
    by simp_all
  from session_step_skips_seen[OF assms n r this]
  have "i \<in> seenMessageIds (fst (session_step op x))"
    "i \<notin> set (handed_ids (session_step op x))" by simp_all
  from Cons.IH[OF ns rs this] show ?case by (simp add: run_session_Cons)
qed

lemma settled_new_ids:
  assumes "fst (settledNewMessages p s) = Inr newMessages" and "m \<in> set newMessages"
    and "\<forall>n. poll_rnd p n \<noteq> msg_id m"
  shows "msg_id m \<noteq> [] \<and> msg_id m \<in> seenMessageIds (fst (poll_settled c p s))"
proof -
  from assms(1) have "newMessages
      = filter hasContent (mapActivities (poll_rnd p) 0 (poll_now p) (settled_kept p s))"
    using settled_new_kept[of p s] by simp
  with assms(2) have "m \<in> set (mapActivities (poll_rnd p) 0 (poll_now p) (settled_kept p s))"
    by simp
  from mapActivities_ids[OF this] assms(3)
  have "msg_id m \<noteq> []" and "msg_id m \<in> turn_key ` set (settled_kept p s)" by auto
  moreover have "set (settled_kept p s) \<subseteq> set (poll_activities p)"
    by (simp add: settled_kept_eq filterSeen_subset)
  ultimately show ?thesis by (auto simp: settled_cycle_shape)
qed

lemma muted_handle:
  assumes "muted" and "\<not> dm" and "fst r = Inr newMessages"
  shows "messages (fst (handleNewMessages muted dm r)) = messages (snd r) @ newMessages
       \<and> snd (handleNewMessages muted dm r) = None
       \<and> speakCalls (fst (handleNewMessages muted dm r)) = speakCalls (snd r)
       \<and> spokenMessageIds (fst (handleNewMessages muted dm r)) = spokenMessageIds (snd r)"
  using assms by (cases r) (simp add: handleNewMessages_def Let_def)

text \<open>
  C1, as stated, fails in its last part. Two turns arrive while the output is muted and
  hands-free mode is off: both are appended to the transcript, nothing is spoken and
  \<open>spokenMessageIds\<close> stays empty. The output is then unmuted. When the transport hands
  out the same two turns again, nothing is spoken; when it hands out the first of them
  again together with a new turn, \<open>speak\<close> is called for the new turn alone.
\<close>

theorem muted_turns_stay_unspoken_counterexample:
  "isMuted muted_state \<and> \<not> drivingMode muted_state
   \<and> messages (fst (run_session [Poll two_turns] (muted_state, [])))
       = [text_message ''c|1'' ''Hello'', text_message ''c|2'' ''World'']
   \<and> spokenMessageIds (fst (run_session [Poll two_turns] (muted_state, []))) = {}
   \<and> \<not> isMuted (fst (run_session [Poll two_turns, AudioPlay] (muted_state, [])))
   \<and> speakCalls (fst (run_session [Poll two_turns, AudioPlay, Poll two_turns]
        (muted_state, []))) = []
   \<and> snd (run_session [Poll two_turns, AudioPlay, Poll two_turns] (muted_state, [])) = []
   \<and> map msg_id (speakCalls (fst (run_session [Poll two_turns, AudioPlay, Poll later_turns,
        SpeakSettled Resolved \<lparr>walk_drivingMode = False, remaining = []\<rparr>]
        (muted_state, [])))) = [''c|3'']
   \<and> snd (run_session [Poll two_turns, AudioPlay, Poll later_turns,
        SpeakSettled Resolved \<lparr>walk_drivingMode = False, remaining = []\<rparr>]
        (muted_state, [])) = []"
  by (simp add: muted_state_def session_eval sample_eval poll_eval)

text \<open>
  C1, amended: if the fetch of a poll call settles with new bot messages, and the closure
  of the call has the output muted and hands-free mode off, then all of them are appended
  to the transcript in order, no walk is started and \<open>speak\<close> is not called, and none of
  their ids is added to \<open>spokenMessageIds\<close>; a tick that settles at once in a muted state
  is such a call. These messages are not spoken later either: as long as no new
  conversation is started, whatever is unmuted and whatever the later operations are,
  \<open>speak\<close> is never called for a message that carries the id of its turn, unless a walk
  had taken that id before the call or a later cycle draws it as a random id.
\<close>

theorem muted_poll_appends_and_is_never_spoken:
  assumes "call_isMuted c" and "\<not> call_drivingMode c"
    and "fst (settledNewMessages p s) = Inr newMessages"
  shows "messages (fst (poll_settled c p s)) = messages s @ newMessages
       \<and> snd (poll_settled c p s) = None
       \<and> speakCalls (fst (poll_settled c p s)) = speakCalls s
       \<and> spokenMessageIds (fst (poll_settled c p s)) = spokenMessageIds s
       \<and> (isMuted s \<and> \<not> drivingMode s \<and> started (chat_service s)
            \<longrightarrow> pollMessages p s = poll_settled c p s)
       \<and> (\<forall>m\<in>set newMessages.
            (\<forall>n. poll_rnd p n \<noteq> msg_id m) \<and> NewChat \<notin> set ops
            \<and> (\<forall>op\<in>set ops. \<forall>q. op_input op = Some q \<longrightarrow> (\<forall>n. poll_rnd q n \<noteq> msg_id m))
            \<and> msg_id m \<notin> set (handed_ids (s, pool))
            \<longrightarrow> msg_id m \<notin> msg_id ` set (speakCalls
                   (fst (run_session ops (fst (poll_settled c p s), pool)))))"
proof -
  obtain svc st seen where fr: "snd (settledNewMessages p s)
     = s\<lparr>chat_service := svc, conversation_store := st, seenMessageIds := seen\<rparr>"
    using settled_frame by blast
  note h = muted_handle[OF assms(1,2,3)]
  from h fr have a: "messages (fst (poll_settled c p s)) = messages s @ newMessages"
    and b: "snd (poll_settled c p s) = None"
    and sc: "speakCalls (fst (poll_settled c p s)) = speakCalls s"
    and d: "spokenMessageIds (fst (poll_settled c p s)) = spokenMessageIds s"
    by (simp_all add: poll_settled_def)
  have e: "pollMessages p s = poll_settled c p s"
    if "isMuted s \<and> \<not> drivingMode s \<and> started (chat_service s)"
    using that assms(1,2) by (simp add: pollMessages_def poll_settled_def fetch_started)
  have f: "msg_id m \<notin> msg_id ` set (speakCalls
                   (fst (run_session ops (fst (poll_settled c p s), pool))))"
    if m: "m \<in> set newMessages"
      and g: "(\<forall>n. poll_rnd p n \<noteq> msg_id m) \<and> NewChat \<notin> set ops
            \<and> (\<forall>op\<in>set ops. \<forall>q. op_input op = Some q \<longrightarrow> (\<forall>n. poll_rnd q n \<noteq> msg_id m))
            \<and> msg_id m \<notin> set (handed_ids (s, pool))" for m
  proof -
    from g have g1: "\<forall>n. poll_rnd p n \<noteq> msg_id m" and g2: "NewChat \<notin> set ops"
      and g3: "\<forall>op\<in>set ops. \<forall>q. op_input op = Some q \<longrightarrow> (\<forall>n. poll_rnd q n \<noteq> msg_id m)"
      and g4: "msg_id m \<notin> set (handed_ids (s, pool))" by simp_all
    note i = settled_new_ids[OF assms(3) m g1, of c]
    from g4 sc have "msg_id m \<notin> set (handed_ids (fst (poll_settled c p s), pool))"
      by (simp add: handed_ids_def)
    with run_session_skips_seen[OF conjunct1[OF i] g2 g3, of "(fst (poll_settled c p s), pool)"] i
    have "msg_id m \<notin> set (handed_ids (run_session ops (fst (poll_settled c p s), pool)))"
      by simp
    then show ?thesis by (simp add: handed_ids_def)
  qed
  from a b sc d e f show ?thesis by blast
qed

theorem muted_poll_appends_and_is_never_spoken_witness:
  "call_isMuted muted_call \<and> \<not> call_drivingMode muted_call
   \<and> fst (settledNewMessages two_turns muted_state)
       = Inr [text_message ''c|1'' ''Hello'', text_message ''c|2'' ''World'']
   \<and> messages (fst (poll_settled muted_call two_turns muted_state))
       = [text_message ''c|1'' ''Hello'', text_message ''c|2'' ''World'']
   \<and> snd (poll_settled muted_call two_turns muted_state) = None
   \<and> speakCalls (fst (poll_settled muted_call two_turns muted_state)) = []
   \<and> spokenMessageIds (fst (poll_settled muted_call two_turns muted_state)) = {}
   \<and> pollMessages two_turns muted_state = poll_settled muted_call two_turns muted_state
   \<and> ''c|1'' \<notin> msg_id ` set (speakCalls (fst (run_session
        [AudioPlay, Poll later_turns,
         SpeakSettled Resolved \<lparr>walk_drivingMode = False, remaining = []\<rparr>]
        (fst (poll_settled muted_call two_turns muted_state), []))))"
proof -
  let ?ops = "[AudioPlay, Poll later_turns,
         SpeakSettled Resolved \<lparr>walk_drivingMode = False, remaining = []\<rparr>]"
  let ?m = "text_message ''c|1'' ''Hello''"
  have h1: "call_isMuted muted_call" and h2: "\<not> call_drivingMode muted_call"
    by (simp_all add: muted_call_def first_call_def)
  have h3: "fst (settledNewMessages two_turns muted_state)
       = Inr [text_message ''c|1'' ''Hello'', text_message ''c|2'' ''World'']"
    by (simp add: muted_state_def sample_eval poll_eval)
  have h4: "isMuted muted_state \<and> \<not> drivingMode muted_state \<and> started (chat_service muted_state)"
    "messages muted_state = []" "speakCalls muted_state = []" "spokenMessageIds muted_state = {}"
    by (simp_all add: muted_state_def initial_state_def sample_service_def started_def
        or_else_def truthy_def)
  have h5: "?m \<in> set [text_message ''c|1'' ''Hello'', text_message ''c|2'' ''World'']"
    "msg_id ?m = ''c|1''" by (simp_all add: text_message_def)
  have h6: "(\<forall>n. poll_rnd two_turns n \<noteq> msg_id ?m) \<and> NewChat \<notin> set ?ops
      \<and> (\<forall>op\<in>set ?ops. \<forall>q. op_input op = Some q \<longrightarrow> (\<forall>n. poll_rnd q n \<noteq> msg_id ?m))
      \<and> msg_id ?m \<notin> set (handed_ids (muted_state, []))"
    by (simp add: two_turns_def later_turns_def op_input_def text_message_def handed_ids_def
        queued_ids_def muted_state_def initial_state_def)
  note t = muted_poll_appends_and_is_never_spoken[OF h1 h2 h3, of ?ops "[]"]
  from t h4 have r1: "messages (fst (poll_settled muted_call two_turns muted_state))
       = [text_message ''c|1'' ''Hello'', text_message ''c|2'' ''World'']"
    and r2: "snd (poll_settled muted_call two_turns muted_state) = None"
    and r3: "speakCalls (fst (poll_settled muted_call two_turns muted_state)) = []"
    and r4: "spokenMessageIds (fst (poll_settled muted_call two_turns muted_state)) = {}"
    and r5: "pollMessages two_turns muted_state = poll_settled muted_call two_turns muted_state"
    by simp_all
  from t h5(1) h6 have "msg_id ?m \<notin> msg_id ` set (speakCalls (fst (run_session ?ops
        (fst (poll_settled muted_call two_turns muted_state), []))))"
    by blast
  with h5(2) have r6: "''c|1'' \<notin> msg_id ` set (speakCalls (fst (run_session ?ops
        (fst (poll_settled muted_call two_turns muted_state), []))))"
    by simp
  from h1 h2 h3 r1 r2 r3 r4 r5 r6 show ?thesis by simp
qed

end
